theory Spec2Isabelle
  imports Complex_Main
begin

section \<open>AvatarPlayer: data model\<close>

text \<open>
  The component \<^verbatim>\<open>AvatarPlayer\<close> preloads every frame named by a manifest, then plays
  them in step with an audio track. JavaScript is single threaded: an \<^verbatim>\<open>async\<close>
  function runs until its next \<^verbatim>\<open>await\<close> and is resumed by the event the browser
  delivers. Each such resumption is one function of this model, and the order in which
  the browser delivers events is an explicit argument.

  Numbers: timestamps and frame rates are finite JavaScript numbers, read as reals. The
  arithmetic \<^verbatim>\<open>tick\<close> does on them is that of doubles: each operation rounds its exact
  result to the nearest double and overflows to an infinity. A frame index is an
  integer, an infinity or \<^verbatim>\<open>NaN\<close> (the value of \<^verbatim>\<open>x % 0\<close> and of \<^verbatim>\<open>Infinity % n\<close>): the
  type \<open>jsnum\<close>.

  Of the manifest and the props the fields that only size or style the canvas
  (\<^verbatim>\<open>width\<close>, \<^verbatim>\<open>height\<close>, \<^verbatim>\<open>canvasWidth\<close>, \<^verbatim>\<open>className\<close>, \<^verbatim>\<open>style\<close>) are left out.
  \<open>onReady\<close>, \<open>onEnd\<close> and \<open>onError\<close> say whether the host supplied the callback. The
  player models one run of the top-level effect, from mount to cleanup.
\<close>

type_synonym url = string
type_synonym blob = string

text \<open>\<^verbatim>\<open>ImageBitmap | HTMLImageElement\<close>: only the former has a \<^verbatim>\<open>close\<close> method.\<close>

datatype frame = ImageBitmap blob | HTMLImageElement blob

datatype error =
    NetworkError url
  | DecodeError blob
  | InvalidURL string
  | MissingInZip string
  | ZipError url
  | ManifestError
  | AudioNotPlayable

datatype jsnum = Num int | PosInf | NegInf | NaN

record manifest =
  basePath :: "string option"
  frames :: "string list"
  fps :: "real option"
  audio :: string
  zip_entry :: "string option"

record props =
  manifestUrl :: string
  fpsProp :: "real option"
  loop :: bool
  onReady :: bool
  onEnd :: bool
  onError :: bool

text \<open>
  What the browser and the network answer. \<open>http u\<close> is the body \<^verbatim>\<open>fetch(u)\<close> followed
  by \<^verbatim>\<open>r.blob()\<close> yields (\<open>None\<close>: the promise rejects); \<open>unzip b\<close> are the file
  entries \<^verbatim>\<open>JSZip.loadAsync\<close> finds in a body, in their physical order (\<open>None\<close>: not
  an archive); \<open>href rel base\<close> is \<^verbatim>\<open>new URL(rel, base).href\<close> (\<open>None\<close>: the
  constructor throws).
\<close>

record world =
  origin :: url
  href :: "string \<Rightarrow> url \<Rightarrow> url option"
  http :: "url \<Rightarrow> blob option"
  unzip :: "blob \<Rightarrow> (string \<times> blob) list option"
  decodable :: "blob \<Rightarrow> bool"
  hasCreateImageBitmap :: bool

definition MAX_CONCURRENT_REQUESTS :: nat where
  "MAX_CONCURRENT_REQUESTS = 8"

section \<open>Decoding\<close>

definition createBitmap :: "world \<Rightarrow> blob \<Rightarrow> error + frame" where
  "createBitmap w b =
     (if hasCreateImageBitmap w
      then (if decodable w b then Inr (ImageBitmap b) else Inl (DecodeError b))
      else (if decodable w b then Inr (HTMLImageElement b) else Inl (DecodeError b)))"

text \<open>\<^verbatim>\<open>fetch(u).then((r) => r.blob()).then(createBitmap)\<close>\<close>

definition fetchBitmap :: "world \<Rightarrow> url \<Rightarrow> error + frame" where
  "fetchBitmap w u =
     (case http w u of None \<Rightarrow> Inl (NetworkError u) | Some b \<Rightarrow> createBitmap w b)"

section \<open>loadFrames, individual mode: the worker pool\<close>

text \<open>
  A worker is suspended at its \<^verbatim>\<open>await\<close> on the fetch of the index it claimed, or has
  returned (the queue was exhausted), or has thrown (its fetch or decode failed).
  \<open>results\<close> is \<^verbatim>\<open>new Array(queue.length)\<close>: a slot is \<open>None\<close> until it is
  written. \<open>fetches\<close> records every \<^verbatim>\<open>fetch\<close> call in the order issued, \<open>settled\<close> counts
  the fetch chains that have completed or failed, and \<open>rejection\<close> is the first
  rejection \<^verbatim>\<open>Promise.all\<close> saw.
\<close>

datatype wstate = Awaiting nat | Returned | Thrown

record pool =
  index :: nat
  results :: "frame option list"
  workers :: "wstate list"
  fetches :: "url list"
  settled :: nat
  rejection :: "error option"

datatype load_result = Pending | Rejected error | Fulfilled "frame option list"

text \<open>
  The head of the worker's loop, which runs without suspension:
  \<^verbatim>\<open>while (index < queue.length) { const i = index++; ... fetch(queue[i])\<close>.
\<close>

definition claim :: "url list \<Rightarrow> pool \<Rightarrow> wstate \<times> pool" where
  "claim queue s =
     (if index s < length queue
      then (Awaiting (index s),
            s\<lparr>index := index s + 1, fetches := fetches s @ [queue ! index s]\<rparr>)
      else (Returned, s))"

text \<open>One call \<^verbatim>\<open>worker()\<close> of \<^verbatim>\<open>Array.from({ length: ... }, () => worker())\<close>.\<close>

definition spawn :: "url list \<Rightarrow> pool \<Rightarrow> pool" where
  "spawn queue s = (case claim queue s of (st, s') \<Rightarrow> s'\<lparr>workers := workers s' @ [st]\<rparr>)"

definition pool_init :: "url list \<Rightarrow> pool" where
  "pool_init queue =
     ((spawn queue) ^^ (min MAX_CONCURRENT_REQUESTS (length queue)))
       \<lparr>index = 0, results = replicate (length queue) None, workers = [],
        fetches = [], settled = 0, rejection = None\<rparr>"

text \<open>
  The fetch chain of worker \<open>k\<close> settles. On success the worker writes
  \<^verbatim>\<open>results[i] = bmp\<close> and goes round its loop; on failure it throws, which rejects
  \<^verbatim>\<open>Promise.all\<close> while the other workers keep running.
\<close>

definition resume :: "world \<Rightarrow> url list \<Rightarrow> nat \<Rightarrow> pool \<Rightarrow> pool" where
  "resume w queue k s =
     (if k < length (workers s) then
        (case workers s ! k of
           Awaiting i \<Rightarrow>
             (case fetchBitmap w (queue ! i) of
                Inl e \<Rightarrow>
                  s\<lparr>workers := (workers s)[k := Thrown], settled := settled s + 1,
                    rejection := (case rejection s of None \<Rightarrow> Some e | Some e0 \<Rightarrow> Some e0)\<rparr>
              | Inr bmp \<Rightarrow>
                  (case claim queue
                          (s\<lparr>results := (results s)[i := Some bmp], settled := settled s + 1\<rparr>) of
                     (st, s') \<Rightarrow> s'\<lparr>workers := (workers s')[k := st]\<rparr>))
         | Returned \<Rightarrow> s
         | Thrown \<Rightarrow> s)
      else s)"

fun is_awaiting :: "wstate \<Rightarrow> bool" where
  "is_awaiting (Awaiting i) = True"
| "is_awaiting Returned = False"
| "is_awaiting Thrown = False"

definition awaiting :: "pool \<Rightarrow> nat list" where
  "awaiting s = filter (\<lambda>k. is_awaiting (workers s ! k)) [0..<length (workers s)]"

text \<open>
  A schedule says in which order the outstanding fetches settle: its next entry \<open>c\<close>
  selects one of the workers that are suspended right now (the entry is taken modulo
  their number, so every entry is a legal choice and every order is some schedule).
\<close>

fun run_pool :: "world \<Rightarrow> url list \<Rightarrow> nat list \<Rightarrow> pool \<Rightarrow> pool" where
  "run_pool w queue [] s = s"
| "run_pool w queue (c # cs) s =
     (case awaiting s of
        [] \<Rightarrow> s
      | k # ks \<Rightarrow> run_pool w queue cs (resume w queue ((k # ks) ! (c mod length (k # ks))) s))"

text \<open>\<^verbatim>\<open>await Promise.all(...); return results\<close>\<close>

definition promise_all :: "pool \<Rightarrow> load_result" where
  "promise_all s =
     (case rejection s of
        Some e \<Rightarrow> Rejected e
      | None \<Rightarrow> if awaiting s = [] then Fulfilled (results s) else Pending)"

text \<open>The fetches issued and not yet settled.\<close>

definition outstanding :: "pool \<Rightarrow> nat" where
  "outstanding s = length (fetches s) - settled s"

section \<open>loadFrames, archive mode\<close>

text \<open>
  \<^verbatim>\<open>jszip.file(name)\<close>: JSZip keeps its entries in an object keyed by name, so of two
  entries with one name the later one is found.
\<close>

definition jszip_file :: "(string \<times> blob) list \<Rightarrow> string \<Rightarrow> blob option" where
  "jszip_file entries name = map_of (rev entries) name"

text \<open>\<^verbatim>\<open>for (const name of orderedNames) { ... bitmaps.push(bmp) }\<close>\<close>

fun zip_loop :: "world \<Rightarrow> (string \<times> blob) list \<Rightarrow> string list \<Rightarrow> frame list \<Rightarrow> error + frame list" where
  "zip_loop w entries [] bitmaps = Inr bitmaps"
| "zip_loop w entries (name # names) bitmaps =
     (case jszip_file entries name of
        None \<Rightarrow> Inl (MissingInZip name)
      | Some fileBlob \<Rightarrow>
          (case createBitmap w fileBlob of
             Inl e \<Rightarrow> Inl e
           | Inr bmp \<Rightarrow> zip_loop w entries names (bitmaps @ [bmp])))"

section \<open>loadFrames\<close>

text \<open>\<^verbatim>\<open>if (zip)\<close>: an absent or empty name selects individual mode.\<close>

fun zip_name :: "string option \<Rightarrow> string option" where
  "zip_name None = None"
| "zip_name (Some z) = (if z = [] then None else Some z)"

definition new_URL :: "world \<Rightarrow> string \<Rightarrow> url \<Rightarrow> error + url" where
  "new_URL w rel base = (case href w rel base of None \<Rightarrow> Inl (InvalidURL rel) | Some u \<Rightarrow> Inr u)"

definition base_url :: "world \<Rightarrow> props \<Rightarrow> manifest \<Rightarrow> error + url" where
  "base_url w p m =
     (let bp = (case basePath m of None \<Rightarrow> [] | Some b \<Rightarrow> b) in
      if length bp > 0 then new_URL w bp (origin w)
      else if manifestUrl p \<noteq> [] then new_URL w (manifestUrl p) (origin w)
      else Inr (origin w))"

text \<open>\<^verbatim>\<open>frames.map((fname) => new URL(fname, base).href)\<close>; the first name that does
  not parse throws.\<close>

fun map_href :: "world \<Rightarrow> url \<Rightarrow> string list \<Rightarrow> error + url list" where
  "map_href w base [] = Inr []"
| "map_href w base (fname # fnames) =
     (case new_URL w fname base of
        Inl e \<Rightarrow> Inl e
      | Inr u \<Rightarrow> (case map_href w base fnames of Inl e \<Rightarrow> Inl e | Inr us \<Rightarrow> Inr (u # us)))"

definition load_zip :: "world \<Rightarrow> url \<Rightarrow> string \<Rightarrow> string list \<Rightarrow> load_result" where
  "load_zip w base z orderedNames =
     (case new_URL w z base of
        Inl e \<Rightarrow> Rejected e
      | Inr zipUrl \<Rightarrow>
          (case http w zipUrl of
             None \<Rightarrow> Rejected (NetworkError zipUrl)
           | Some b \<Rightarrow>
               (case unzip w b of
                  None \<Rightarrow> Rejected (ZipError zipUrl)
                | Some entries \<Rightarrow>
                    (case zip_loop w entries orderedNames [] of
                       Inl e \<Rightarrow> Rejected e
                     | Inr bitmaps \<Rightarrow> Fulfilled (map Some bitmaps)))))"

definition load_individual :: "world \<Rightarrow> url \<Rightarrow> string list \<Rightarrow> nat list \<Rightarrow> load_result" where
  "load_individual w base fnames cs =
     (case map_href w base fnames of
        Inl e \<Rightarrow> Rejected e
      | Inr queue \<Rightarrow> promise_all (run_pool w queue cs (pool_init queue)))"

text \<open>
  \<open>loadFrames w p m cs\<close> is the state of the promise \<^verbatim>\<open>loadFrames(manifest)\<close> once the
  fetches of the pool have settled in the order \<open>cs\<close> (archive mode awaits one thing
  at a time, so there the order is immaterial).
\<close>

definition loadFrames :: "world \<Rightarrow> props \<Rightarrow> manifest \<Rightarrow> nat list \<Rightarrow> load_result" where
  "loadFrames w p m cs =
     (case base_url w p m of
        Inl e \<Rightarrow> Rejected e
      | Inr base \<Rightarrow>
          (case zip_name (zip_entry m) of
             Some z \<Rightarrow> load_zip w base z (frames m)
           | None \<Rightarrow> load_individual w base (frames m) cs))"

section \<open>Double arithmetic\<close>

text \<open>
  JavaScript numbers are IEEE 754 doubles. A finite double is a real \<open>m * 2 powi (e - 52)\<close>
  with an integer \<open>m\<close> of magnitude below \<open>2 ^ 53\<close> and \<open>- 1022 \<le> e \<le> 1023\<close>. An
  arithmetic operation yields the double nearest to its exact result, the one with the
  even \<open>m\<close> when two are equally near, and an infinity when rounding reaches
  \<open>2 ^ 1024\<close>. \<open>-0\<close> is not told apart from \<open>0\<close>: nothing in \<^verbatim>\<open>tick\<close> does.
\<close>

datatype double = Finite real | PlusInfinity | MinusInfinity | NotANumber

text \<open>The nearest integer, the even one at a tie.\<close>

definition round_even :: "real \<Rightarrow> int" where
  "round_even r =
     (let f = \<lfloor>r\<rfloor>; d = r - of_int f in
      if d < 1 / 2 then f else if 1 / 2 < d then f + 1 else if even f then f else f + 1)"

text \<open>
  The binary exponent of a positive real: the \<open>e\<close> with \<open>2 powi e \<le> x < 2 powi (e + 1)\<close>,
  but at least \<open>- 1022\<close> (below \<open>2 powi (- 1022)\<close> doubles are subnormal and keep that
  spacing) and at most 1024 (which \<open>2 ^ 1024\<close> and everything above it get). It is
  searched upwards from 0 or downwards from \<open>- 1\<close>.
\<close>

fun expo_up :: "nat \<Rightarrow> int \<Rightarrow> real \<Rightarrow> int" where
  "expo_up 0 e x = e"
| "expo_up (Suc k) e x = (if x < 2 powi (e + 1) then e else expo_up k (e + 1) x)"

fun expo_down :: "nat \<Rightarrow> int \<Rightarrow> real \<Rightarrow> int" where
  "expo_down 0 e x = e"
| "expo_down (Suc k) e x = (if 2 powi e \<le> x then e else expo_down k (e - 1) x)"

definition exponent :: "real \<Rightarrow> int" where
  "exponent x = (if 1 \<le> x then expo_up 1024 0 x else expo_down 1021 (- 1) x)"

text \<open>The spacing of the doubles around a positive real, and the real rounded to a
  multiple of it.\<close>

definition ulp :: "real \<Rightarrow> real" where
  "ulp x = 2 powi (exponent x - 52)"

definition round_mag :: "real \<Rightarrow> real" where
  "round_mag x = of_int (round_even (x / ulp x)) * ulp x"

text \<open>The rounded magnitude is \<open>2 ^ 1024\<close> or more.\<close>

definition overflows :: "real \<Rightarrow> bool" where
  "overflows x \<longleftrightarrow> exponent x = 1024 \<or> exponent x = 1023 \<and> round_even (x / ulp x) = 2 ^ 53"

text \<open>Round to nearest, ties to even.\<close>

definition round_double :: "real \<Rightarrow> double" where
  "round_double x =
     (if x = 0 then Finite 0
      else if 0 < x then (if overflows x then PlusInfinity else Finite (round_mag x))
      else (if overflows (- x) then MinusInfinity else Finite (- round_mag (- x))))"

text \<open>\<^verbatim>\<open>a - b\<close> on finite numbers.\<close>

definition d_sub :: "real \<Rightarrow> real \<Rightarrow> double" where
  "d_sub a b = round_double (a - b)"

text \<open>\<^verbatim>\<open>x / 1000\<close>\<close>

fun d_div1000 :: "double \<Rightarrow> double" where
  "d_div1000 (Finite a) = round_double (a / 1000)"
| "d_div1000 PlusInfinity = PlusInfinity"
| "d_div1000 MinusInfinity = MinusInfinity"
| "d_div1000 NotANumber = NotANumber"

text \<open>\<^verbatim>\<open>x * f\<close> for a finite \<open>f\<close>.\<close>

fun d_mul :: "double \<Rightarrow> real \<Rightarrow> double" where
  "d_mul (Finite a) f = round_double (a * f)"
| "d_mul PlusInfinity f = (if 0 < f then PlusInfinity else if f < 0 then MinusInfinity else NotANumber)"
| "d_mul MinusInfinity f = (if 0 < f then MinusInfinity else if f < 0 then PlusInfinity else NotANumber)"
| "d_mul NotANumber f = NotANumber"

text \<open>\<^verbatim>\<open>Math.floor(x)\<close>\<close>

fun d_floor :: "double \<Rightarrow> jsnum" where
  "d_floor (Finite a) = Num \<lfloor>a\<rfloor>"
| "d_floor PlusInfinity = PosInf"
| "d_floor MinusInfinity = NegInf"
| "d_floor NotANumber = NaN"

section \<open>The player\<close>

text \<open>
  The refs and state hooks of the component, the browser's list of animation frame
  callbacks, and the two variables of one run of the top-level effect: its liveness
  flag \<open>isMounted\<close> and the \<^verbatim>\<open>await\<close> at which \<^verbatim>\<open>setup()\<close> is suspended.
  \<open>canvasRef s\<close> says that \<^verbatim>\<open>canvasRef.current?.getContext("2d")\<close> is an object; the
  canvas element is rendered only once \<open>started\<close> holds. Step 2 of \<^verbatim>\<open>setup\<close>, which
  only writes the size of that element, is left out: nothing reads it.
\<close>

record audio_el =
  src :: url
  paused :: bool
  ended :: bool
  currentTime :: real

datatype phase =
    AwaitManifest
  | AwaitFrames manifest
  | AwaitCanPlay
  | AwaitPlay
  | SetupDone
  | SetupReturned
  | SetupCaught

record player =
  canvasRef :: bool
  audioRef :: "audio_el option"
  rafRef :: "nat option"
  isReady :: bool
  started :: bool
  framesRef :: "frame option list"
  manifestRef :: "manifest option"
  startTimeRef :: real
  currentFrameRef :: jsnum
  callbacks :: "nat list"
  nextHandle :: nat
  isMounted :: bool
  phase :: phase

text \<open>What a step does to the outside, in order.\<close>

datatype effect =
    DrawFrame jsnum
  | ClearRect
  | DrawImage frame
  | RequestAnimationFrame nat
  | CancelAnimationFrame nat
  | AudioLoad
  | AudioPlay
  | AudioPause
  | AudioSeek real
  | Close frame
  | CallOnReady
  | CallOnEnd
  | CallOnError error
  | ConsoleError error

text \<open>The component as first rendered; the effect has called \<^verbatim>\<open>setup()\<close>, which awaits
  the manifest.\<close>

definition mount :: player where
  "mount = \<lparr>canvasRef = False, audioRef = None, rafRef = None, isReady = False,
            started = False, framesRef = [], manifestRef = None, startTimeRef = 0,
            currentFrameRef = Num 0, callbacks = [], nextHandle = 1, isMounted = True,
            phase = AwaitManifest\<rparr>"

text \<open>React commits a render: the canvas exists exactly when \<open>started\<close>.\<close>

definition commit :: "player \<Rightarrow> player" where
  "commit s = s\<lparr>canvasRef := started s\<rparr>"

definition requestAnimationFrame :: "player \<Rightarrow> nat \<times> player" where
  "requestAnimationFrame s =
     (nextHandle s, s\<lparr>callbacks := callbacks s @ [nextHandle s], nextHandle := nextHandle s + 1\<rparr>)"

definition cancelAnimationFrame :: "nat \<Rightarrow> player \<Rightarrow> player" where
  "cancelAnimationFrame h s = s\<lparr>callbacks := removeAll h (callbacks s)\<rparr>"

text \<open>\<^verbatim>\<open>if (rafRef.current !== null) cancelAnimationFrame(rafRef.current)\<close>\<close>

definition cancel_raf :: "player \<Rightarrow> player \<times> effect list" where
  "cancel_raf s =
     (case rafRef s of
        None \<Rightarrow> (s, [])
      | Some h \<Rightarrow> (cancelAnimationFrame h s, [CancelAnimationFrame h]))"

subsection \<open>drawFrame\<close>

text \<open>\<^verbatim>\<open>framesRef.current[index]\<close>: \<^verbatim>\<open>undefined\<close> outside the array, at a hole, at an
  infinity and at \<^verbatim>\<open>NaN\<close>.\<close>

fun frame_at :: "frame option list \<Rightarrow> jsnum \<Rightarrow> frame option" where
  "frame_at fs (Num i) = (if 0 \<le> i \<and> i < int (length fs) then fs ! nat i else None)"
| "frame_at fs PosInf = None"
| "frame_at fs NegInf = None"
| "frame_at fs NaN = None"

definition drawFrame :: "jsnum \<Rightarrow> player \<Rightarrow> effect list" where
  "drawFrame idx s =
     DrawFrame idx #
       (case frame_at (framesRef s) idx of
          None \<Rightarrow> []
        | Some frame \<Rightarrow> if canvasRef s then [ClearRect, DrawImage frame] else [])"

subsection \<open>tick\<close>

text \<open>\<^verbatim>\<open>a || d\<close> on numbers: zero is falsy.\<close>

fun or_num :: "real option \<Rightarrow> real \<Rightarrow> real" where
  "or_num None d = d"
| "or_num (Some x) d = (if x = 0 then d else x)"

definition effective_fps :: "props \<Rightarrow> manifest \<Rightarrow> real" where
  "effective_fps p m = or_num (fpsProp p) (or_num (fps m) 25)"

text \<open>\<^verbatim>\<open>Math.floor(((performance.now() - startTimeRef.current) / 1000) * fps)\<close>, where
  \<^verbatim>\<open>performance.now()\<close> reads \<open>now\<close>: a subtraction, a division and a multiplication
  of doubles, each rounded, then the floor.\<close>

definition frame_index :: "props \<Rightarrow> manifest \<Rightarrow> real \<Rightarrow> player \<Rightarrow> jsnum" where
  "frame_index p m now s =
     d_floor (d_mul (d_div1000 (d_sub now (startTimeRef s))) (effective_fps p m))"

text \<open>\<^verbatim>\<open>a >= n\<close> for an array length \<open>n\<close>: false of \<^verbatim>\<open>NaN\<close>.\<close>

fun num_ge :: "jsnum \<Rightarrow> int \<Rightarrow> bool" where
  "num_ge (Num a) n = (n \<le> a)"
| "num_ge PosInf n = True"
| "num_ge NegInf n = False"
| "num_ge NaN n = False"

text \<open>\<^verbatim>\<open>a % n\<close> for an array length \<open>n\<close>: the sign is that of \<open>a\<close>; \<^verbatim>\<open>NaN\<close> when \<open>n\<close> is
  zero or \<open>a\<close> is not finite.\<close>

fun js_rem :: "jsnum \<Rightarrow> nat \<Rightarrow> jsnum" where
  "js_rem (Num a) n = (if n = 0 then NaN else Num (sgn a * (\<bar>a\<bar> mod int n)))"
| "js_rem PosInf n = NaN"
| "js_rem NegInf n = NaN"
| "js_rem NaN n = NaN"

text \<open>\<^verbatim>\<open>a !== b\<close>: \<^verbatim>\<open>NaN\<close> differs from every number and from itself.\<close>

definition strict_neq :: "jsnum \<Rightarrow> jsnum \<Rightarrow> bool" where
  "strict_neq a b \<longleftrightarrow> a = NaN \<or> b = NaN \<or> a \<noteq> b"

text \<open>\<^verbatim>\<open>if (audioRef.current && audioRef.current.ended) { currentTime = 0; play() }\<close>\<close>

definition restart_audio :: "player \<Rightarrow> player \<times> effect list" where
  "restart_audio s =
     (case audioRef s of
        None \<Rightarrow> (s, [])
      | Some a \<Rightarrow>
          if ended a
          then (s\<lparr>audioRef := Some (a\<lparr>paused := False, ended := False, currentTime := 0\<rparr>)\<rparr>,
                [AudioSeek 0, AudioPlay])
          else (s, []))"

text \<open>The tail of \<^verbatim>\<open>tick\<close>: draw when the index changed, then schedule the next tick.\<close>

definition draw_and_schedule :: "jsnum \<Rightarrow> player \<Rightarrow> player \<times> effect list" where
  "draw_and_schedule frameIdx s =
     (let s1 = (if strict_neq frameIdx (currentFrameRef s) then s\<lparr>currentFrameRef := frameIdx\<rparr> else s);
          fx1 = (if strict_neq frameIdx (currentFrameRef s) then drawFrame frameIdx s1 else [])
      in case requestAnimationFrame s1 of
           (h, s2) \<Rightarrow> (s2\<lparr>rafRef := Some h\<rparr>, fx1 @ [RequestAnimationFrame h]))"

text \<open>\<open>tick p now s\<close>: one run of \<^verbatim>\<open>tick\<close> in which \<^verbatim>\<open>performance.now()\<close> reads \<open>now\<close>.\<close>

definition tick :: "props \<Rightarrow> real \<Rightarrow> player \<Rightarrow> player \<times> effect list" where
  "tick p now s =
     (case manifestRef s of
        None \<Rightarrow> (s, [])
      | Some m \<Rightarrow>
          let frameIdx = frame_index p m now s; n = length (framesRef s) in
          if num_ge frameIdx (int n) then
            (if loop p then
               (case restart_audio s of
                  (s1, fx1) \<Rightarrow>
                    (case draw_and_schedule (js_rem frameIdx n) s1 of
                       (s2, fx2) \<Rightarrow> (s2, fx1 @ fx2)))
             else
               (case cancel_raf s of
                  (s1, fx1) \<Rightarrow>
                    (s1, drawFrame (Num (int n - 1)) s @ fx1 @ (if onEnd p then [CallOnEnd] else []))))
          else draw_and_schedule frameIdx s)"

subsection \<open>The browser runs animation frame callbacks\<close>

text \<open>
  Every callback scheduled here is \<^verbatim>\<open>tick\<close>. At an animation frame the browser runs
  the callbacks that were listed when the frame began, in order, skipping those
  cancelled meanwhile.
\<close>

definition run_callback :: "props \<Rightarrow> real \<Rightarrow> nat \<Rightarrow> player \<Rightarrow> player \<times> effect list" where
  "run_callback p now h s =
     (if h \<in> set (callbacks s) then tick p now (s\<lparr>callbacks := removeAll h (callbacks s)\<rparr>)
      else (s, []))"

fun run_callbacks :: "props \<Rightarrow> real \<Rightarrow> nat list \<Rightarrow> player \<Rightarrow> player \<times> effect list" where
  "run_callbacks p now [] s = (s, [])"
| "run_callbacks p now (h # hs) s =
     (case run_callback p now h s of
        (s1, fx1) \<Rightarrow> (case run_callbacks p now hs s1 of (s2, fx2) \<Rightarrow> (s2, fx1 @ fx2)))"

definition animation_frame :: "props \<Rightarrow> real \<Rightarrow> player \<Rightarrow> player \<times> effect list" where
  "animation_frame p now s = run_callbacks p now (callbacks s) s"

text \<open>Animation frames at the successive clock readings \<open>ts\<close>.\<close>

fun play :: "props \<Rightarrow> real list \<Rightarrow> player \<Rightarrow> player \<times> effect list" where
  "play p [] s = (s, [])"
| "play p (t # ts) s =
     (case animation_frame p t s of
        (s1, fx1) \<Rightarrow> (case play p ts s1 of (s2, fx2) \<Rightarrow> (s2, fx1 @ fx2)))"

text \<open>The indices \<^verbatim>\<open>drawFrame\<close> was called with, and the number of \<^verbatim>\<open>onEnd\<close> calls.\<close>

fun drawn :: "effect list \<Rightarrow> jsnum list" where
  "drawn [] = []"
| "drawn (DrawFrame i # fx) = i # drawn fx"
| "drawn (e # fx) = drawn fx"

definition ends :: "effect list \<Rightarrow> nat" where
  "ends fx = length (filter (\<lambda>e. e = CallOnEnd) fx)"

subsection \<open>The cleanup of the effect\<close>

text \<open>\<^verbatim>\<open>"close" in f && typeof f.close === "function"\<close> holds of an
  \<^verbatim>\<open>ImageBitmap\<close> only; \<^verbatim>\<open>forEach\<close> skips the holes of an array.\<close>

fun closes :: "frame option list \<Rightarrow> effect list" where
  "closes [] = []"
| "closes (Some (ImageBitmap b) # fs) = Close (ImageBitmap b) # closes fs"
| "closes (Some (HTMLImageElement b) # fs) = closes fs"
| "closes (None # fs) = closes fs"

definition pause_audio :: "player \<Rightarrow> player \<times> effect list" where
  "pause_audio s =
     (case audioRef s of
        None \<Rightarrow> (s, [])
      | Some a \<Rightarrow> (s\<lparr>audioRef := Some (a\<lparr>paused := True\<rparr>)\<rparr>, [AudioPause]))"

definition cleanup :: "player \<Rightarrow> player \<times> effect list" where
  "cleanup s =
     (case cancel_raf (s\<lparr>isMounted := False\<rparr>) of
        (s1, fx1) \<Rightarrow>
          (case pause_audio s1 of
             (s2, fx2) \<Rightarrow> (s2\<lparr>framesRef := []\<rparr>, fx1 @ fx2 @ closes (framesRef s2))))"

subsection \<open>setup, one resumption at a time\<close>

text \<open>\<^verbatim>\<open>catch (err) { if (isMounted) onError ? onError(err) : console.error(err); }\<close>\<close>

definition caught :: "props \<Rightarrow> error \<Rightarrow> player \<Rightarrow> player \<times> effect list" where
  "caught p e s =
     (s\<lparr>phase := SetupCaught\<rparr>,
      if isMounted s then (if onError p then [CallOnError e] else [ConsoleError e]) else [])"

text \<open>The manifest fetch settles (\<open>None\<close>: the fetch or \<^verbatim>\<open>r.json()\<close> rejected). On success
  \<^verbatim>\<open>loadFrames(manifest)\<close> is called and awaited.\<close>

definition setup_manifest :: "props \<Rightarrow> manifest option \<Rightarrow> player \<Rightarrow> player \<times> effect list" where
  "setup_manifest p r s =
     (case phase s of
        AwaitManifest \<Rightarrow>
          (case r of
             None \<Rightarrow> caught p ManifestError s
           | Some m \<Rightarrow>
               if \<not> isMounted s then (s\<lparr>phase := SetupReturned\<rparr>, [])
               else (s\<lparr>manifestRef := Some m, phase := AwaitFrames m\<rparr>, []))
      | _ \<Rightarrow> (s, []))"

text \<open>
  \<^verbatim>\<open>framesRef.current = await loadFrames(manifest); if (!isMounted) return;\<close> and step 4
  up to the wait for \<^verbatim>\<open>canplaythrough\<close>. The frame fetches have settled in the order
  \<open>cs\<close>; while the promise is pending nothing happens.
\<close>

definition setup_frames :: "world \<Rightarrow> props \<Rightarrow> nat list \<Rightarrow> player \<Rightarrow> player \<times> effect list" where
  "setup_frames w p cs s =
     (case phase s of
        AwaitFrames m \<Rightarrow>
          (case loadFrames w p m cs of
             Pending \<Rightarrow> (s, [])
           | Rejected e \<Rightarrow> caught p e s
           | Fulfilled fs \<Rightarrow>
               let s1 = s\<lparr>framesRef := fs\<rparr> in
               if \<not> isMounted s1 then (s1\<lparr>phase := SetupReturned\<rparr>, [])
               else
                 (case base_url w p m of
                    Inl e \<Rightarrow> caught p e s1
                  | Inr base \<Rightarrow>
                      (case new_URL w (audio m) base of
                         Inl e \<Rightarrow> caught p e s1
                       | Inr audioUrl \<Rightarrow>
                           (s1\<lparr>audioRef := Some \<lparr>src = audioUrl, paused = True, ended = False,
                                                 currentTime = 0\<rparr>,
                               phase := AwaitCanPlay\<rparr>,
                            [AudioLoad]))))
      | _ \<Rightarrow> (s, []))"

text \<open>\<^verbatim>\<open>canplaythrough\<close> fires: the promise resolves and \<^verbatim>\<open>audioRef.current.play()\<close> is
  called and awaited.\<close>

definition setup_canplay :: "player \<Rightarrow> player \<times> effect list" where
  "setup_canplay s =
     (case phase s of
        AwaitCanPlay \<Rightarrow> (s\<lparr>phase := AwaitPlay\<rparr>, [AudioPlay])
      | _ \<Rightarrow> (s, []))"

definition audio_playing :: "player \<Rightarrow> player" where
  "audio_playing s =
     s\<lparr>audioRef := (case audioRef s of None \<Rightarrow> None | Some a \<Rightarrow> Some (a\<lparr>paused := False\<rparr>))\<rparr>"

text \<open>The promise of \<^verbatim>\<open>play()\<close> settles (\<open>ok\<close>: it resolved); step 5 follows, with
  \<^verbatim>\<open>performance.now()\<close> reading \<open>now\<close>.\<close>

definition setup_play :: "props \<Rightarrow> bool \<Rightarrow> real \<Rightarrow> player \<Rightarrow> player \<times> effect list" where
  "setup_play p ok now s =
     (case phase s of
        AwaitPlay \<Rightarrow>
          if \<not> ok then caught p AudioNotPlayable s
          else
            (let s1 = (audio_playing s)\<lparr>startTimeRef := now\<rparr> in
             case requestAnimationFrame s1 of
               (h, s2) \<Rightarrow>
                 (s2\<lparr>rafRef := Some h, isReady := True, phase := SetupDone\<rparr>,
                  drawFrame (Num 0) s1 @ [RequestAnimationFrame h]
                    @ (if onReady p then [CallOnReady] else [])))
      | _ \<Rightarrow> (s, []))"

subsection \<open>handleStart\<close>

text \<open>The click calls \<^verbatim>\<open>audioRef.current?.play()\<close> and awaits it; \<open>handleStart\<close> is the
  rest of the handler, run when that promise has settled.\<close>

definition handleStart_click :: "player \<Rightarrow> effect list" where
  "handleStart_click s = (case audioRef s of None \<Rightarrow> [] | Some a \<Rightarrow> [AudioPlay])"

definition handleStart :: "bool \<Rightarrow> real \<Rightarrow> player \<Rightarrow> player \<times> effect list" where
  "handleStart ok now s =
     (if \<not> ok then (s, [ConsoleError AudioNotPlayable])
      else
        (let s1 = (audio_playing s)\<lparr>startTimeRef := now\<rparr> in
         case requestAnimationFrame s1 of
           (h, s2) \<Rightarrow> (s2\<lparr>rafRef := Some h, started := True\<rparr>, [RequestAnimationFrame h])))"

subsection \<open>A session: the resumptions of setup and the animation frames, in any order\<close>

datatype session_event =
    ManifestSettled "manifest option"
  | FramesSettled "nat list"
  | CanPlayThrough
  | PlaySettled bool real
  | AnimationFrame real

fun session_step :: "world \<Rightarrow> props \<Rightarrow> session_event \<Rightarrow> player \<Rightarrow> player \<times> effect list" where
  "session_step w p (ManifestSettled r) s = setup_manifest p r s"
| "session_step w p (FramesSettled cs) s = setup_frames w p cs s"
| "session_step w p CanPlayThrough s = setup_canplay s"
| "session_step w p (PlaySettled ok now) s = setup_play p ok now s"
| "session_step w p (AnimationFrame now) s = animation_frame p now s"

fun session :: "world \<Rightarrow> props \<Rightarrow> session_event list \<Rightarrow> player \<Rightarrow> player \<times> effect list" where
  "session w p [] s = (s, [])"
| "session w p (e # es) s =
     (case session_step w p e s of
        (s1, fx1) \<Rightarrow> (case session w p es s1 of (s2, fx2) \<Rightarrow> (s2, fx1 @ fx2)))"

section \<open>Notions used in the statements\<close>

text \<open>The frame store holds one decoded image for each name of the manifest.\<close>

definition store_complete :: "manifest \<Rightarrow> frame option list \<Rightarrow> bool" where
  "store_complete m fs \<longleftrightarrow> length fs = length (frames m) \<and> list_all (\<lambda>x. x \<noteq> None) fs"

text \<open>The image decoded from the archive entry of a given name, if there is one.\<close>

definition entry_image :: "world \<Rightarrow> (string \<times> blob) list \<Rightarrow> string \<Rightarrow> frame option" where
  "entry_image w entries name =
     (case jszip_file entries name of
        None \<Rightarrow> None
      | Some fileBlob \<Rightarrow> (case createBitmap w fileBlob of Inl e \<Rightarrow> None | Inr bmp \<Rightarrow> Some bmp))"

text \<open>The index a tick that goes on aims at: the frame index, reduced modulo the
  number of frames once it has reached it.\<close>

definition target :: "props \<Rightarrow> manifest \<Rightarrow> real \<Rightarrow> player \<Rightarrow> jsnum" where
  "target p m now s =
     (if num_ge (frame_index p m now s) (int (length (framesRef s)))
      then js_rem (frame_index p m now s) (length (framesRef s))
      else frame_index p m now s)"


fun dle :: "double \<Rightarrow> double \<Rightarrow> bool" where
  "dle (Finite a) (Finite b) = (a \<le> b)"
| "dle (Finite a) PlusInfinity = True"
| "dle MinusInfinity (Finite b) = True"
| "dle MinusInfinity PlusInfinity = True"
| "dle MinusInfinity MinusInfinity = True"
| "dle PlusInfinity PlusInfinity = True"
| "dle x y = False"




text \<open>The invariant of the worker pool over a queue: the indices below \<open>index\<close> are
  each either awaited by exactly one worker or, as long as nothing was rejected,
  filled with the image fetched from their URL; a worker returns only when the queue
  is exhausted; and the fetches issued are those settled plus those awaited.\<close>

definition pool_inv :: "world \<Rightarrow> url list \<Rightarrow> pool \<Rightarrow> bool" where
  "pool_inv w queue s \<longleftrightarrow>
     length (results s) = length queue \<and>
     index s \<le> length queue \<and>
     fetches s = take (index s) queue \<and>
     length (workers s) = min MAX_CONCURRENT_REQUESTS (length queue) \<and>
     (\<forall>k<length (workers s). \<forall>i. workers s ! k = Awaiting i \<longrightarrow>
        i < index s \<and> (\<forall>k'<length (workers s). workers s ! k' = Awaiting i \<longrightarrow> k' = k)) \<and>
     (rejection s = None \<longrightarrow>
        (\<forall>j<index s. (\<forall>k<length (workers s). workers s ! k \<noteq> Awaiting j) \<longrightarrow>
           (\<exists>bmp. results s ! j = Some bmp \<and> fetchBitmap w (queue ! j) = Inr bmp))) \<and>
     (Returned \<in> set (workers s) \<longrightarrow> index s = length queue) \<and>
     (rejection s = None \<longrightarrow> Thrown \<notin> set (workers s)) \<and>
     settled s + length (filter is_awaiting (workers s)) = index s"

text \<open>Work left: the indices not yet claimed and the fetches not yet settled.\<close>

definition todo :: "url list \<Rightarrow> pool \<Rightarrow> nat" where
  "todo queue s = (length queue - index s) + length (awaiting s)"

text \<open>What holds of a session in which nothing happens but the resumptions of setup and
  animation frames: a tick is pending only when setup has run to its end, and from
  the moment the frames are stored the store is complete; and at most one tick is
  pending, the one whose handle \<^verbatim>\<open>rafRef\<close> holds.\<close>

definition session_inv :: "player \<Rightarrow> bool" where
  "session_inv s \<longleftrightarrow>
     (phase s \<noteq> SetupDone \<longrightarrow> callbacks s = []) \<and>
     (\<forall>m. phase s = AwaitFrames m \<longrightarrow> manifestRef s = Some m) \<and>
     (phase s = AwaitCanPlay \<or> phase s = AwaitPlay \<or> phase s = SetupDone \<longrightarrow>
        (\<exists>m. manifestRef s = Some m \<and> store_complete m (framesRef s)))"


section \<open>A concrete session\<close>

text \<open>
  Three frames at 10 frames per second, as in the scenarios of the specification. In
  \<open>W0\<close> every URL under the origin answers with a body that decodes, except
  \<^verbatim>\<open>/bad.jpg\<close>; the one archive holds the frames in reverse order.
\<close>

definition W0 :: world where
  "W0 = \<lparr>origin = ''/'',
         href = (\<lambda>rel base. if rel = [] then None else Some (base @ rel)),
         http = (\<lambda>u. if u = ''/bad.jpg'' then None else Some u),
         unzip = (\<lambda>b. if b = ''/frames.zip''
                        then Some [(''c.jpg'', ''C''), (''b.jpg'', ''B''), (''a.jpg'', ''A'')]
                        else None),
         decodable = (\<lambda>b. True),
         hasCreateImageBitmap = True\<rparr>"

definition M0 :: manifest where
  "M0 = \<lparr>basePath = None, frames = [''a.jpg'', ''b.jpg'', ''c.jpg''], fps = Some 10,
         audio = ''a.ogg'', zip_entry = None\<rparr>"

definition P0 :: props where
  "P0 = \<lparr>manifestUrl = [], fpsProp = None, loop = False, onReady = True, onEnd = True,
         onError = True\<rparr>"

text \<open>The player after \<^verbatim>\<open>setup()\<close> has run to its end at time 0.\<close>

definition ready0 :: player where
  "ready0 =
     \<lparr>canvasRef = False,
      audioRef = Some \<lparr>src = ''/a.ogg'', paused = False, ended = False, currentTime = 0\<rparr>,
      rafRef = Some 1, isReady = True, started = False,
      framesRef = [Some (ImageBitmap ''/a.jpg''), Some (ImageBitmap ''/b.jpg''),
                   Some (ImageBitmap ''/c.jpg'')],
      manifestRef = Some M0, startTimeRef = 0, currentFrameRef = Num 0, callbacks = [1],
      nextHandle = 2, isMounted = True, phase = SetupDone\<rparr>"

text \<open>The same session with its frames packed in an archive; a manifest that names a
  frame the archive does not hold; a manifest one of whose frames cannot be fetched;
  and a manifest without frames, with the player setup leaves for it.\<close>

definition MZ :: manifest where
  "MZ = M0\<lparr>zip_entry := Some ''frames.zip''\<rparr>"

definition MZ_missing :: manifest where
  "MZ_missing = MZ\<lparr>frames := [''a.jpg'', ''d.jpg'', ''c.jpg'']\<rparr>"

definition M_bad :: manifest where
  "M_bad = M0\<lparr>frames := [''a.jpg'', ''bad.jpg'', ''c.jpg'']\<rparr>"

definition M_empty :: manifest where
  "M_empty = M0\<lparr>frames := []\<rparr>"

definition ready_empty :: player where
  "ready_empty = ready0\<lparr>framesRef := [], manifestRef := Some M_empty\<rparr>"

text \<open>The world in which the body of the entry \<^verbatim>\<open>a.jpg\<close> does not decode, and two
  archives that hold the same two entries of one name in either order.\<close>

definition W_undecodable :: world where
  "W_undecodable = W0\<lparr>decodable := (\<lambda>b. b \<noteq> ''A'')\<rparr>"

definition W_twice :: world where
  "W_twice = W0\<lparr>unzip := (\<lambda>b. Some [(''a.jpg'', ''A''), (''a.jpg'', ''B'')])\<rparr>"

definition W_twice_swapped :: world where
  "W_twice_swapped = W0\<lparr>unzip := (\<lambda>b. Some [(''a.jpg'', ''B''), (''a.jpg'', ''A'')])\<rparr>"

definition MZ_one :: manifest where
  "MZ_one = MZ\<lparr>frames := [''a.jpg'']\<rparr>"

text \<open>The same props with \<^verbatim>\<open>loop\<close> set, or with a frame rate of zero, and the player
  with the last frame on display and the audio track at its end.\<close>

definition P_zero :: props where
  "P_zero = P0\<lparr>fpsProp := Some 0\<rparr>"

definition looping0 :: props where
  "looping0 = P0\<lparr>loop := True\<rparr>"

definition ready2 :: player where
  "ready2 = ready0\<lparr>currentFrameRef := Num 2,
                   audioRef := Some \<lparr>src = ''/a.ogg'', paused = True, ended = True, currentTime = 3 / 10\<rparr>\<rparr>"

text \<open>A looping run at the frame rate \<open>2 ^ 1023\<close>, at which the index overflows after
  two seconds.\<close>

definition P_fast :: props where
  "P_fast = looping0\<lparr>fpsProp := Some (2 ^ 1023)\<rparr>"

section \<open>Double arithmetic: lemmas\<close>

lemma pow2_add: "(2::real) powi (a + b) = 2 powi a * 2 powi b"
  by (simp add: power_int_add)

lemma pow2_mono: "a \<le> b \<Longrightarrow> (2::real) powi a \<le> 2 powi b"
  by (rule power_int_increasing) simp_all

lemma expo_up_spec:
  "2 powi e \<le> x \<Longrightarrow>
   e \<le> expo_up k e x \<and> expo_up k e x \<le> e + int k \<and> 2 powi (expo_up k e x) \<le> x \<and>
   (expo_up k e x < e + int k \<longrightarrow> x < 2 powi (expo_up k e x + 1))"
proof (induction k arbitrary: e)
  case 0
  then show ?case by simp
next
  case (Suc k)
  show ?case
  proof (cases "x < 2 powi (e + 1)")
    case True
    then show ?thesis using Suc.prems by simp
  next
    case False
    then have "2 powi (e + 1) \<le> x" by simp
    from Suc.IH[OF this] False show ?thesis by auto
  qed
qed

lemma expo_down_spec:
  "x < 2 powi (e + 1) \<Longrightarrow>
   e - int k \<le> expo_down k e x \<and> expo_down k e x \<le> e \<and> x < 2 powi (expo_down k e x + 1) \<and>
   (e - int k < expo_down k e x \<longrightarrow> 2 powi (expo_down k e x) \<le> x)"
proof (induction k arbitrary: e)
  case 0
  then show ?case by simp
next
  case (Suc k)
  show ?case
  proof (cases "2 powi e \<le> x")
    case True
    then show ?thesis using Suc.prems by simp
  next
    case False
    then have "x < 2 powi (e - 1 + 1)" by simp
    from Suc.IH[OF this] False show ?thesis by auto
  qed
qed

lemma exponent_spec:
  shows "- 1022 \<le> exponent x" and "exponent x \<le> 1024"
    and "exponent x < 1024 \<Longrightarrow> x < 2 powi (exponent x + 1)"
    and "- 1022 < exponent x \<Longrightarrow> 2 powi (exponent x) \<le> x"
proof -
  have A: "- 1022 \<le> exponent x \<and> exponent x \<le> 1024 \<and>
        (exponent x < 1024 \<longrightarrow> x < 2 powi (exponent x + 1)) \<and>
        (- 1022 < exponent x \<longrightarrow> 2 powi (exponent x) \<le> x)"
  proof (cases "1 \<le> x")
    case True
    then have "2 powi 0 \<le> x" by simp
    from expo_up_spec[OF this, of 1024] True show ?thesis by (simp add: exponent_def)
  next
    case False
    then have "x < 2 powi (- 1 + 1)" by simp
    from expo_down_spec[OF this, of 1021] False show ?thesis by (simp add: exponent_def)
  qed
  show "- 1022 \<le> exponent x" "exponent x \<le> 1024"
    "exponent x < 1024 \<Longrightarrow> x < 2 powi (exponent x + 1)"
    "- 1022 < exponent x \<Longrightarrow> 2 powi (exponent x) \<le> x"
    using A by blast+
qed

lemma exponent_mono:
  assumes "x \<le> y"
  shows "exponent x \<le> exponent y"
proof (rule ccontr)
  assume "\<not> exponent x \<le> exponent y"
  then have lt: "exponent y < exponent x" by simp
  then have "exponent y < 1024" "- 1022 < exponent x"
    using exponent_spec(2)[of x] exponent_spec(1)[of y] by simp_all
  then have "y < 2 powi (exponent y + 1)" "2 powi (exponent x) \<le> x"
    using exponent_spec(3,4) by blast+
  moreover have "(2::real) powi (exponent y + 1) \<le> 2 powi (exponent x)"
    using lt by (intro pow2_mono) simp
  ultimately show False using assms by simp
qed

lemma round_even_of_int: "round_even (of_int k) = k"
  by (simp add: round_even_def)

lemma round_even_mono:
  assumes "r \<le> r'"
  shows "round_even r \<le> round_even r'"
proof -
  have f: "\<lfloor>r\<rfloor> \<le> \<lfloor>r'\<rfloor>" using assms by (rule floor_mono)
  have u: "round_even r \<le> \<lfloor>r\<rfloor> + 1" "\<lfloor>r'\<rfloor> \<le> round_even r'"
    by (simp_all add: round_even_def Let_def)
  show ?thesis
  proof (cases "\<lfloor>r\<rfloor> = \<lfloor>r'\<rfloor>")
    case True
    then show ?thesis using assms by (auto simp: round_even_def Let_def)
  next
    case False
    then show ?thesis using f u by simp
  qed
qed

lemma round_even_ge: "of_int k \<le> r \<Longrightarrow> k \<le> round_even r"
  using round_even_mono[of "of_int k" r] by (simp add: round_even_of_int)

lemma round_even_le: "r \<le> of_int k \<Longrightarrow> round_even r \<le> k"
  using round_even_mono[of r "of_int k"] by (simp add: round_even_of_int)

lemma ulp_pos: "0 < ulp x"
  by (simp add: ulp_def)

lemma ulp_53: "2 powi (exponent x + 1) = 2 ^ 53 * ulp x"
proof -
  have "exponent x + 1 = 53 + (exponent x - 52)" by simp
  then have "(2::real) powi (exponent x + 1) = 2 powi (53 + (exponent x - 52))" by (rule arg_cong)
  also have "\<dots> = 2 powi 53 * 2 powi (exponent x - 52)" by (rule pow2_add)
  finally show ?thesis by (simp add: ulp_def)
qed

lemma ulp_52: "2 powi (exponent x) = 2 ^ 52 * ulp x"
proof -
  have "exponent x = 52 + (exponent x - 52)" by simp
  then have "(2::real) powi (exponent x) = 2 powi (52 + (exponent x - 52))" by (rule arg_cong)
  also have "\<dots> = 2 powi 52 * 2 powi (exponent x - 52)" by (rule pow2_add)
  finally show ?thesis by (simp add: ulp_def)
qed

text \<open>A rounded magnitude stays inside the closed binade of its argument.\<close>

lemma round_mag_upper:
  assumes "exponent x < 1024"
  shows "round_mag x \<le> 2 powi (exponent x + 1)"
proof -
  have "x < 2 ^ 53 * ulp x" using exponent_spec(3)[OF assms] by (simp only: ulp_53)
  then have "x / ulp x \<le> of_int (2 ^ 53)" using ulp_pos[of x] by (simp add: pos_divide_le_eq)
  then have "round_even (x / ulp x) \<le> 2 ^ 53" by (rule round_even_le)
  then have "(of_int (round_even (x / ulp x)) :: real) \<le> of_int (2 ^ 53)" by (simp only: of_int_le_iff)
  then have "of_int (round_even (x / ulp x)) * ulp x \<le> of_int (2 ^ 53) * ulp x"
    using ulp_pos[of x] by (intro mult_right_mono) simp_all
  then show ?thesis by (simp add: round_mag_def ulp_53)
qed

lemma round_mag_lower:
  assumes "- 1022 < exponent x"
  shows "2 powi (exponent x) \<le> round_mag x"
proof -
  have "2 ^ 52 * ulp x \<le> x" using exponent_spec(4)[OF assms] by (simp only: ulp_52)
  then have "of_int (2 ^ 52) \<le> x / ulp x" using ulp_pos[of x] by (simp add: pos_le_divide_eq)
  then have "2 ^ 52 \<le> round_even (x / ulp x)" by (rule round_even_ge)
  then have "(of_int (2 ^ 52) :: real) \<le> of_int (round_even (x / ulp x))" by (simp only: of_int_le_iff)
  then have "of_int (2 ^ 52) * ulp x \<le> of_int (round_even (x / ulp x)) * ulp x"
    using ulp_pos[of x] by (intro mult_right_mono) simp_all
  then show ?thesis by (simp add: round_mag_def ulp_52)
qed

lemma round_mag_nonneg:
  assumes "0 \<le> x"
  shows "0 \<le> round_mag x"
proof -
  have "of_int 0 \<le> x / ulp x" using assms ulp_pos[of x] by simp
  then have "0 \<le> round_even (x / ulp x)" by (rule round_even_ge)
  then show ?thesis using ulp_pos[of x] by (simp add: round_mag_def)
qed

lemma round_mag_mono:
  assumes "x \<le> y"
  shows "round_mag x \<le> round_mag y"
proof (cases "exponent x = exponent y")
  case True
  then have u: "ulp x = ulp y" by (simp add: ulp_def)
  have "x / ulp y \<le> y / ulp y" using assms ulp_pos[of y] by (simp add: divide_right_mono)
  then have "round_even (x / ulp y) \<le> round_even (y / ulp y)" by (rule round_even_mono)
  then show ?thesis using ulp_pos[of y] by (simp add: round_mag_def u mult_right_mono)
next
  case False
  then have lt: "exponent x < exponent y" using exponent_mono[OF assms] by simp
  then have a: "exponent x < 1024" "- 1022 < exponent y"
    using exponent_spec(2)[of y] exponent_spec(1)[of x] by simp_all
  have "round_mag x \<le> 2 powi (exponent x + 1)" using round_mag_upper[OF a(1)] .
  also have "\<dots> \<le> 2 powi (exponent y)" using lt by (intro pow2_mono) simp
  also have "\<dots> \<le> round_mag y" using round_mag_lower[OF a(2)] .
  finally show ?thesis .
qed

lemma overflows_iff: "overflows x \<longleftrightarrow> 2 ^ 1024 \<le> round_mag x"
proof (cases "exponent x = 1024")
  case True
  then have "2 powi (exponent x) \<le> round_mag x" by (intro round_mag_lower) simp
  then show ?thesis using True by (simp add: overflows_def)
next
  case False
  then have lt: "exponent x < 1024" using exponent_spec(2)[of x] by simp
  show ?thesis
  proof (cases "exponent x = 1023")
    case True
    have u: "ulp x = 2 ^ 971" by (simp add: ulp_def True)
    have "x < 2 ^ 53 * ulp x" using exponent_spec(3)[OF lt] by (simp only: ulp_53)
    then have "x / ulp x \<le> of_int (2 ^ 53)" using ulp_pos[of x] by (simp add: pos_divide_le_eq)
    then have le: "round_even (x / ulp x) \<le> 2 ^ 53" by (rule round_even_le)
    have "(2::real) ^ 1024 = of_int (2 ^ 53) * 2 ^ 971" by simp
    then have "2 ^ 1024 \<le> round_mag x \<longleftrightarrow> (of_int (2 ^ 53) :: real) \<le> of_int (round_even (x / ulp x))"
      unfolding round_mag_def u by (simp del: of_int_power of_int_numeral)
    also have "\<dots> \<longleftrightarrow> 2 ^ 53 \<le> round_even (x / ulp x)" by (simp only: of_int_le_iff)
    finally show ?thesis using le True by (auto simp: overflows_def)
  next
    case F: False
    have "round_mag x \<le> 2 powi (exponent x + 1)" using round_mag_upper[OF lt] .
    also have "\<dots> \<le> 2 powi 1023" using lt F by (intro pow2_mono) simp
    also have "\<dots> < 2 ^ 1024" by simp
    finally show ?thesis using False F by (simp add: overflows_def)
  qed
qed

lemma round_double_pos:
  "0 < x \<Longrightarrow> round_double x = (if 2 ^ 1024 \<le> round_mag x then PlusInfinity else Finite (round_mag x))"
  by (simp add: round_double_def overflows_iff)

lemma round_double_neg:
  "x < 0 \<Longrightarrow> round_double x = (if 2 ^ 1024 \<le> round_mag (- x) then MinusInfinity else Finite (- round_mag (- x)))"
  by (simp add: round_double_def overflows_iff)

lemma round_double_zero: "round_double 0 = Finite 0"
  by (simp add: round_double_def)

lemma round_double_mono:
  assumes "x \<le> y"
  shows "dle (round_double x) (round_double y)"
proof -
  consider "0 < x" | "x = 0" "y = 0" | "x = 0" "0 < y" | "x < 0" "y < 0" | "x < 0" "y = 0" | "x < 0" "0 < y"
    using assms by linarith
  then show ?thesis
  proof cases
    case 1
    then have y: "0 < y" using assms by simp
    show ?thesis using round_mag_mono[OF assms] by (simp add: round_double_pos 1 y)
  next
    case 2
    then show ?thesis by (simp add: round_double_zero)
  next
    case 3
    then show ?thesis using round_mag_nonneg[of y] by (simp add: round_double_pos round_double_zero)
  next
    case 4
    have "round_mag (- y) \<le> round_mag (- x)" using assms by (intro round_mag_mono) simp
    then show ?thesis by (simp add: round_double_neg 4)
  next
    case 5
    then show ?thesis using round_mag_nonneg[of "- x"] by (simp add: round_double_neg round_double_zero)
  next
    case 6
    then show ?thesis using round_mag_nonneg[of "- x"] round_mag_nonneg[of y]
      by (simp add: round_double_neg round_double_pos)
  qed
qed


text \<open>The rounded magnitude is a nearest multiple of the spacing, and everything from
  \<open>2 ^ 1024\<close> on rounds to an infinity.\<close>

lemma round_even_nearest: "\<bar>of_int (round_even r) - r\<bar> \<le> \<bar>of_int k - r\<bar>"
proof -
  define f where "f = \<lfloor>r\<rfloor>"
  have fr: "of_int f \<le> r" "r < of_int f + 1" unfolding f_def by linarith+
  have a: "\<bar>of_int (round_even r) - r\<bar> \<le> r - of_int f"
    and b: "\<bar>of_int (round_even r) - r\<bar> \<le> of_int f + 1 - r"
    using fr unfolding round_even_def f_def[symmetric] Let_def by (auto split: if_splits)
  consider "k \<le> f" | "f + 1 \<le> k" by linarith
  then show ?thesis
  proof cases
    case 1
    then have "(of_int k :: real) \<le> of_int f" by simp
    then show ?thesis using a fr by linarith
  next
    case 2
    then have "(of_int f :: real) + 1 \<le> of_int k" by (metis of_int_1 of_int_add of_int_le_iff)
    then show ?thesis using b fr by linarith
  qed
qed

lemma round_mag_nearest: "\<bar>round_mag x - x\<bar> \<le> \<bar>of_int k * ulp x - x\<bar>"
proof -
  have u: "0 < ulp x" by (rule ulp_pos)
  have e: "\<bar>a * ulp x - x\<bar> = \<bar>a - x / ulp x\<bar> * ulp x" for a
  proof -
    have "a * ulp x - x = (a - x / ulp x) * ulp x" using u by (simp add: field_simps)
    then show ?thesis using u by (simp only: abs_mult abs_of_pos)
  qed
  have "\<bar>of_int (round_even (x / ulp x)) - x / ulp x\<bar> * ulp x \<le> \<bar>of_int k - x / ulp x\<bar> * ulp x"
    using u round_even_nearest[of "x / ulp x" k] by (intro mult_right_mono) simp_all
  then show ?thesis unfolding round_mag_def e .
qed

lemma round_double_overflow: "2 ^ 1024 \<le> x \<Longrightarrow> round_double x = PlusInfinity"
proof -
  assume x: "2 ^ 1024 \<le> x"
  have "exponent x = 1024"
  proof (rule ccontr)
    assume "exponent x \<noteq> 1024"
    then have lt: "exponent x < 1024" using exponent_spec(2)[of x] by simp
    then have "x < 2 powi (exponent x + 1)" by (rule exponent_spec(3))
    also have "\<dots> \<le> 2 powi 1024" using lt by (intro pow2_mono) simp
    finally show False using x by simp
  qed
  moreover have "0 < x" using x by (rule less_le_trans[rotated]) simp
  ultimately show ?thesis by (simp add: round_double_def overflows_def)
qed

lemma round_double_not_NaN: "round_double x \<noteq> NotANumber"
  by (simp add: round_double_def)

lemma round_double_cases:
  obtains a where "round_double x = Finite a" | "round_double x = PlusInfinity" | "round_double x = MinusInfinity"
  using round_double_not_NaN[of x] by (cases "round_double x") simp_all

lemma d_sub_mono: "t \<le> t' \<Longrightarrow> dle (d_sub t b) (d_sub t' b)"
  unfolding d_sub_def by (rule round_double_mono) simp

lemma dle_top: "dle (round_double x) PlusInfinity"
  by (rule round_double_cases[of x]) simp_all

lemma dle_bot: "dle MinusInfinity (round_double x)"
  by (rule round_double_cases[of x]) simp_all

lemma d_div1000_mono: "dle x y \<Longrightarrow> dle (d_div1000 x) (d_div1000 y)"
  by (cases x; cases y) (simp_all add: round_double_mono divide_right_mono dle_top dle_bot)

lemma d_mul_mono: "0 < f \<Longrightarrow> dle x y \<Longrightarrow> dle (d_mul x f) (d_mul y f)"
  by (cases x; cases y) (simp_all add: round_double_mono mult_right_mono dle_top dle_bot)

lemma d_floor_mono: "dle x y \<Longrightarrow> num_ge (d_floor x) c \<Longrightarrow> num_ge (d_floor y) c"
proof (cases x; cases y)
  fix a b assume "x = Finite a" "y = Finite b" "dle x y" "num_ge (d_floor x) c"
  then have "c \<le> \<lfloor>a\<rfloor>" "\<lfloor>a\<rfloor> \<le> \<lfloor>b\<rfloor>" by (simp_all add: floor_mono)
  then show "num_ge (d_floor y) c" using \<open>y = Finite b\<close> by simp
qed simp_all




section \<open>The worker pool: lemmas\<close>

lemma spawn_pow:
  "n \<le> length queue \<Longrightarrow>
   ((spawn queue) ^^ n) \<lparr>index = 0, results = rs, workers = [], fetches = [], settled = 0, rejection = None\<rparr>
   = \<lparr>index = n, results = rs, workers = map Awaiting [0..<n], fetches = take n queue, settled = 0, rejection = None\<rparr>"
  by (induction n) (simp_all add: spawn_def claim_def take_Suc_conv_app_nth)

lemma pool_init_eq:
  "pool_init queue =
     \<lparr>index = min MAX_CONCURRENT_REQUESTS (length queue), results = replicate (length queue) None,
      workers = map Awaiting [0..<min MAX_CONCURRENT_REQUESTS (length queue)],
      fetches = take (min MAX_CONCURRENT_REQUESTS (length queue)) queue, settled = 0, rejection = None\<rparr>"
  unfolding pool_init_def by (rule spawn_pow) simp

lemma filter_awaiting_map: "filter is_awaiting (map Awaiting xs) = map Awaiting xs"
  by (induction xs) simp_all

lemma pool_inv_init: "pool_inv w queue (pool_init queue)"
  unfolding pool_inv_def pool_init_eq
  by (auto simp: filter_awaiting_map)

lemma filter_upd_length:
  assumes "k < length xs" "P (xs ! k)"
  shows "length (filter P (xs[k := y])) + 1 = length (filter P xs) + (if P y then 1 else 0)"
proof -
  have "filter P xs = filter P (take k xs @ xs ! k # drop (Suc k) xs)"
    using assms(1) by (simp add: id_take_nth_drop[symmetric])
  then have "length (filter P xs) = length (filter P (take k xs)) + 1 + length (filter P (drop (Suc k) xs))"
    using assms(2) by simp
  moreover have "length (filter P (xs[k := y])) =
      length (filter P (take k xs)) + (if P y then 1 else 0) + length (filter P (drop (Suc k) xs))"
    using assms(1) by (simp add: upd_conv_take_nth_drop)
  ultimately show ?thesis by simp
qed

lemma resume_fail:
  assumes "k < length (workers s)" "workers s ! k = Awaiting i" "fetchBitmap w (queue ! i) = Inl e"
  shows "resume w queue k s = s\<lparr>workers := (workers s)[k := Thrown], settled := settled s + 1,
                    rejection := (case rejection s of None \<Rightarrow> Some e | Some e0 \<Rightarrow> Some e0)\<rparr>"
  using assms by (simp add: resume_def)

lemma resume_claim:
  assumes "k < length (workers s)" "workers s ! k = Awaiting i" "fetchBitmap w (queue ! i) = Inr bmp"
    "index s < length queue"
  shows "resume w queue k s = s\<lparr>results := (results s)[i := Some bmp], settled := settled s + 1,
            index := index s + 1, fetches := fetches s @ [queue ! index s],
            workers := (workers s)[k := Awaiting (index s)]\<rparr>"
  using assms by (simp add: resume_def claim_def)

lemma resume_return:
  assumes "k < length (workers s)" "workers s ! k = Awaiting i" "fetchBitmap w (queue ! i) = Inr bmp"
    "\<not> index s < length queue"
  shows "resume w queue k s = s\<lparr>results := (results s)[i := Some bmp], settled := settled s + 1,
            workers := (workers s)[k := Returned]\<rparr>"
  using assms by (simp add: resume_def claim_def)

lemma pool_invI:
  assumes "length (results s) = length queue"
    "index s \<le> length queue"
    "fetches s = take (index s) queue"
    "length (workers s) = min MAX_CONCURRENT_REQUESTS (length queue)"
    "\<And>k i. k < length (workers s) \<Longrightarrow> workers s ! k = Awaiting i \<Longrightarrow> i < index s"
    "\<And>k k' i. k < length (workers s) \<Longrightarrow> k' < length (workers s) \<Longrightarrow>
        workers s ! k = Awaiting i \<Longrightarrow> workers s ! k' = Awaiting i \<Longrightarrow> k' = k"
    "\<And>j. rejection s = None \<Longrightarrow> j < index s \<Longrightarrow>
       (\<forall>k<length (workers s). workers s ! k \<noteq> Awaiting j) \<Longrightarrow>
           (\<exists>bmp. results s ! j = Some bmp \<and> fetchBitmap w (queue ! j) = Inr bmp)"
    "Returned \<in> set (workers s) \<Longrightarrow> index s = length queue"
    "rejection s = None \<Longrightarrow> Thrown \<notin> set (workers s)"
    "settled s + length (filter is_awaiting (workers s)) = index s"
  shows "pool_inv w queue s"
  unfolding pool_inv_def using assms by blast

lemma pool_invD:
  assumes "pool_inv w queue s"
  shows "length (results s) = length queue"
    "index s \<le> length queue"
    "fetches s = take (index s) queue"
    "length (workers s) = min MAX_CONCURRENT_REQUESTS (length queue)"
    "\<And>k i. k < length (workers s) \<Longrightarrow> workers s ! k = Awaiting i \<Longrightarrow> i < index s"
    "\<And>k k' i. k < length (workers s) \<Longrightarrow> k' < length (workers s) \<Longrightarrow>
        workers s ! k = Awaiting i \<Longrightarrow> workers s ! k' = Awaiting i \<Longrightarrow> k' = k"
    "\<And>j. rejection s = None \<Longrightarrow> j < index s \<Longrightarrow>
       (\<forall>k<length (workers s). workers s ! k \<noteq> Awaiting j) \<Longrightarrow>
           (\<exists>bmp. results s ! j = Some bmp \<and> fetchBitmap w (queue ! j) = Inr bmp)"
    "Returned \<in> set (workers s) \<Longrightarrow> index s = length queue"
    "rejection s = None \<Longrightarrow> Thrown \<notin> set (workers s)"
    "settled s + length (filter is_awaiting (workers s)) = index s"
  using assms unfolding pool_inv_def by blast+

lemma in_set_upd: "x \<in> set (xs[k := y]) \<Longrightarrow> x = y \<or> x \<in> set xs"
  using set_update_subset_insert[of xs k y] by auto

lemma pool_inv_resume:
  assumes inv: "pool_inv w queue s" and k: "k < length (workers s)" and a: "workers s ! k = Awaiting i"
  shows "pool_inv w queue (resume w queue k s)"
proof (cases "fetchBitmap w (queue ! i)")
  case (Inl e)
  note D = pool_invD[OF inv]
  have cnt: "length (filter is_awaiting ((workers s)[k := Thrown])) + 1 = length (filter is_awaiting (workers s))"
    using filter_upd_length[of k "workers s" is_awaiting Thrown] k a by simp
  show ?thesis
    unfolding resume_fail[OF k a Inl]
  proof (rule pool_invI, goal_cases)
    case 1 show ?case using D(1) by simp
  next
    case 2 show ?case using D(2) by simp
  next
    case 3 show ?case using D(3) by simp
  next
    case 4 show ?case using D(4) by simp
  next
    case (5 k1 i1) then show ?case using k D(5)[of k1 i1] by (auto simp: nth_list_update split: if_splits)
  next
    case (6 k1 k2 i1) then show ?case using k D(6)[of k1 k2 i1] by (auto simp: nth_list_update split: if_splits)
  next
    case (7 j) then show ?case by (simp split: option.splits)
  next
    case 8 then show ?case using D(8) by (auto dest: in_set_upd)
  next
    case 9 then show ?case by (simp split: option.splits)
  next
    case 10 show ?case using D(10) cnt by simp
  qed
next
  case (Inr bmp)
  note D = pool_invD[OF inv]
  have ii: "i < index s" using D(5)[OF k a] .
  show ?thesis
  proof (cases "index s < length queue")
    case True
    have cnt: "length (filter is_awaiting ((workers s)[k := Awaiting (index s)])) = length (filter is_awaiting (workers s))"
      using filter_upd_length[of k "workers s" is_awaiting "Awaiting (index s)"] k a by simp
    show ?thesis
      unfolding resume_claim[OF k a Inr True]
    proof (rule pool_invI, goal_cases)
      case 1 show ?case using D(1) by simp
    next
      case 2 show ?case using True by simp
    next
      case 3 show ?case using D(3) True by (simp add: take_Suc_conv_app_nth)
    next
      case 4 show ?case using D(4) by simp
    next
      case (5 k1 i1) then show ?case using k D(5)[of k1 i1] by (auto simp: nth_list_update split: if_splits)
    next
      case (6 k1 k2 i1)
      have n1: "k1 \<noteq> k \<Longrightarrow> workers s ! k1 = Awaiting i1" using 6(3) k by (simp add: nth_list_update)
      have n2: "k2 \<noteq> k \<Longrightarrow> workers s ! k2 = Awaiting i1" using 6(4) k by (simp add: nth_list_update)
      have e1: "k1 = k \<Longrightarrow> i1 = index s" using 6(3) k by (simp add: nth_list_update)
      have e2: "k2 = k \<Longrightarrow> i1 = index s" using 6(4) k by (simp add: nth_list_update)
      have l1: "k1 < length (workers s)" and l2: "k2 < length (workers s)" using 6(1,2) by simp_all
      show ?case
      proof (cases "k1 = k")
        case True
        then show ?thesis using e1 n2 D(5)[OF l2] by (cases "k2 = k") auto
      next
        case False
        then show ?thesis using n1 e2 n2 D(5)[OF l1] D(6)[OF l1 l2] by (cases "k2 = k") auto
      qed
    next
      case (7 j)
      show ?case
      proof (cases "j = i")
        case True then show ?thesis using Inr ii D(1,2) by simp
      next
        case False
        have q: "\<And>k1. k1 < length (workers s) \<Longrightarrow> (workers s)[k := Awaiting (index s)] ! k1 \<noteq> Awaiting j"
          using 7(3) by simp
        have "j \<noteq> index s" using q[OF k] k by simp
        then have jl: "j < index s" using 7(2) by simp
        have "workers s ! k1 \<noteq> Awaiting j" if "k1 < length (workers s)" for k1
          using q[OF that] k a False by (cases "k1 = k") simp_all
        then obtain b where "results s ! j = Some b" "fetchBitmap w (queue ! j) = Inr b"
          using D(7)[of j] 7(1) jl by auto
        then show ?thesis using False by simp
      qed
    next
      case 8 then show ?case using D(8) True by (auto dest: in_set_upd)
    next
      case 9 then show ?case using D(9) by (auto dest: in_set_upd)
    next
      case 10 show ?case using D(10) cnt by simp
    qed
  next
    case False
    have cnt: "length (filter is_awaiting ((workers s)[k := Returned])) + 1 = length (filter is_awaiting (workers s))"
      using filter_upd_length[of k "workers s" is_awaiting Returned] k a by simp
    show ?thesis
      unfolding resume_return[OF k a Inr False]
    proof (rule pool_invI, goal_cases)
      case 1 show ?case using D(1) by simp
    next
      case 2 show ?case using D(2) by simp
    next
      case 3 show ?case using D(3) by simp
    next
      case 4 show ?case using D(4) by simp
    next
      case (5 k1 i1) then show ?case using k D(5)[of k1 i1] by (auto simp: nth_list_update split: if_splits)
    next
      case (6 k1 k2 i1) then show ?case using k D(6)[of k1 k2 i1] by (auto simp: nth_list_update split: if_splits)
    next
      case (7 j)
      show ?case
      proof (cases "j = i")
        case True then show ?thesis using Inr ii D(1,2) by simp
      next
        case False
        have q: "\<And>k1. k1 < length (workers s) \<Longrightarrow> (workers s)[k := Returned] ! k1 \<noteq> Awaiting j"
          using 7(3) by simp
        have "workers s ! k1 \<noteq> Awaiting j" if "k1 < length (workers s)" for k1
          using q[OF that] k a False by (cases "k1 = k") simp_all
        then obtain b where "results s ! j = Some b" "fetchBitmap w (queue ! j) = Inr b"
          using D(7)[of j] 7(1,2) by auto
        then show ?thesis using False by simp
      qed
    next
      case 8 then show ?case using D(2) False by simp
    next
      case 9 then show ?case using D(9) by (auto dest: in_set_upd)
    next
      case 10 show ?case using D(10) cnt by simp
    qed
  qed
qed

lemma awaiting_length: "length (awaiting s) = length (filter is_awaiting (workers s))"
proof -
  have "filter is_awaiting (workers s) = filter is_awaiting (map (nth (workers s)) [0..<length (workers s)])"
    by (simp add: map_nth)
  also have "\<dots> = map (nth (workers s)) (awaiting s)"
    by (simp add: filter_map awaiting_def comp_def)
  finally show ?thesis by simp
qed

lemma awaiting_mem:
  assumes "k \<in> set (awaiting s)"
  shows "k < length (workers s) \<and> (\<exists>i. workers s ! k = Awaiting i)"
proof -
  from assms have "k < length (workers s)" and "is_awaiting (workers s ! k)"
    by (simp_all add: awaiting_def)
  then show ?thesis by (cases "workers s ! k") simp_all
qed

lemma pick_mem: "xs \<noteq> [] \<Longrightarrow> xs ! (c mod length xs) \<in> set xs"
  by simp

text \<open>Every suspended worker is the choice of some schedule entry: no completion order
  is left out.\<close>

lemma pick_any:
  assumes "k \<in> set (awaiting s)"
  shows "\<exists>c. awaiting s ! (c mod length (awaiting s)) = k"
proof -
  from assms obtain i where "i < length (awaiting s)" "awaiting s ! i = k"
    by (auto simp: in_set_conv_nth)
  then have "awaiting s ! (i mod length (awaiting s)) = k" by simp
  then show ?thesis ..
qed

lemma todo_resume:
  assumes inv: "pool_inv w queue s" and k: "k < length (workers s)" and a: "workers s ! k = Awaiting i"
  shows "todo queue (resume w queue k s) + 1 = todo queue s"
proof (cases "fetchBitmap w (queue ! i)")
  case (Inl e)
  show ?thesis
    using filter_upd_length[of k "workers s" is_awaiting Thrown] k a
    unfolding resume_fail[OF k a Inl] todo_def awaiting_length by simp
next
  case (Inr bmp)
  show ?thesis
  proof (cases "index s < length queue")
    case True
    show ?thesis
      using filter_upd_length[of k "workers s" is_awaiting "Awaiting (index s)"] k a True
      unfolding resume_claim[OF k a Inr True] todo_def awaiting_length by simp
  next
    case False
    show ?thesis
      using filter_upd_length[of k "workers s" is_awaiting Returned] k a False
      unfolding resume_return[OF k a Inr False] todo_def awaiting_length by simp
  qed
qed

lemma run_pool_inv:
  "pool_inv w queue s \<Longrightarrow> pool_inv w queue (run_pool w queue cs s)"
proof (induction cs arbitrary: s)
  case Nil
  then show ?case by simp
next
  case (Cons c cs)
  show ?case
  proof (cases "awaiting s")
    case Nil
    then show ?thesis using Cons.prems by simp
  next
    case (Cons k ks)
    let ?k = "(k # ks) ! (c mod length (k # ks))"
    have "?k \<in> set (awaiting s)" unfolding Cons by (rule pick_mem) simp
    then obtain i where "?k < length (workers s)" "workers s ! ?k = Awaiting i"
      using awaiting_mem by blast
    then have "pool_inv w queue (resume w queue ?k s)"
      using pool_inv_resume Cons.prems by blast
    then show ?thesis using Cons.IH Cons by simp
  qed
qed

lemma run_pool_settles:
  "pool_inv w queue s \<Longrightarrow> todo queue s \<le> length cs \<Longrightarrow> awaiting (run_pool w queue cs s) = []"
proof (induction cs arbitrary: s)
  case Nil
  then show ?case by (simp add: todo_def)
next
  case (Cons c cs)
  show ?case
  proof (cases "awaiting s")
    case Nil
    then show ?thesis by simp
  next
    case (Cons k ks)
    let ?k = "(k # ks) ! (c mod length (k # ks))"
    have "?k \<in> set (awaiting s)" unfolding Cons by (rule pick_mem) simp
    then obtain i where ki: "?k < length (workers s)" "workers s ! ?k = Awaiting i"
      using awaiting_mem by blast
    have inv': "pool_inv w queue (resume w queue ?k s)"
      using pool_inv_resume Cons.prems(1) ki by blast
    have "todo queue (resume w queue ?k s) + 1 = todo queue s"
      using todo_resume Cons.prems(1) ki by blast
    then have "todo queue (resume w queue ?k s) \<le> length cs"
      using Cons.prems(2) by simp
    then show ?thesis using Cons.IH[OF inv'] Cons by simp
  qed
qed

lemma todo_init: "todo queue (pool_init queue) = length queue"
  unfolding todo_def awaiting_length pool_init_eq by (simp add: filter_awaiting_map)

lemma awaiting_Nil_iff: "awaiting s = [] \<longleftrightarrow> (\<forall>k<length (workers s). \<not> is_awaiting (workers s ! k))"
  unfolding awaiting_def by (auto simp: filter_empty_conv)

lemma settled_ok:
  assumes inv: "pool_inv w queue s" and aw: "awaiting s = []" and rej: "rejection s = None"
  shows "index s = length queue"
    and "fetches s = queue"
    and "length (results s) = length queue"
    and "\<And>j. j < length queue \<Longrightarrow> \<exists>bmp. results s ! j = Some bmp \<and> fetchBitmap w (queue ! j) = Inr bmp"
proof -
  note D = pool_invD[OF inv]
  have na: "\<And>k. k < length (workers s) \<Longrightarrow> \<not> is_awaiting (workers s ! k)"
    using aw by (simp add: awaiting_Nil_iff)
  show idx: "index s = length queue"
  proof (cases "length queue = 0")
    case True
    then show ?thesis using D(2) by simp
  next
    case False
    then have l: "0 < length (workers s)" using D(4) by (simp add: MAX_CONCURRENT_REQUESTS_def)
    have "workers s ! 0 \<noteq> Thrown" using D(9)[OF rej] l by (metis nth_mem)
    then have "workers s ! 0 = Returned" using na[OF l] by (cases "workers s ! 0") simp_all
    then have "Returned \<in> set (workers s)" using l by (metis nth_mem)
    then show ?thesis using D(8) by simp
  qed
  show "fetches s = queue" using D(3) idx by simp
  show "length (results s) = length queue" using D(1) .
  fix j assume j: "j < length queue"
  have "\<forall>k<length (workers s). workers s ! k \<noteq> Awaiting j"
    using na by (metis is_awaiting.simps(1))
  then show "\<exists>bmp. results s ! j = Some bmp \<and> fetchBitmap w (queue ! j) = Inr bmp"
    using D(7)[OF rej] j idx by simp
qed

lemma resume_rejection:
  assumes inv: "pool_inv w queue s" and k: "k < length (workers s)" and a: "workers s ! k = Awaiting i"
    and ok: "\<forall>u\<in>set queue. \<exists>b. fetchBitmap w u = Inr b"
  shows "rejection (resume w queue k s) = rejection s"
proof -
  have "i < length queue" using pool_invD(5)[OF inv k a] pool_invD(2)[OF inv] by simp
  then obtain b where b: "fetchBitmap w (queue ! i) = Inr b" using ok by (meson nth_mem)
  show ?thesis
  proof (cases "index s < length queue")
    case True
    show ?thesis unfolding resume_claim[OF k a b True] by simp
  next
    case False
    show ?thesis unfolding resume_return[OF k a b False] by simp
  qed
qed

lemma run_pool_rejection:
  "pool_inv w queue s \<Longrightarrow> \<forall>u\<in>set queue. \<exists>b. fetchBitmap w u = Inr b \<Longrightarrow>
   rejection (run_pool w queue cs s) = rejection s"
proof (induction cs arbitrary: s)
  case Nil
  then show ?case by simp
next
  case (Cons c cs)
  show ?case
  proof (cases "awaiting s")
    case Nil
    then show ?thesis by simp
  next
    case (Cons k ks)
    let ?k = "(k # ks) ! (c mod length (k # ks))"
    have "?k \<in> set (awaiting s)" unfolding Cons by (rule pick_mem) simp
    then obtain i where ki: "?k < length (workers s)" "workers s ! ?k = Awaiting i"
      using awaiting_mem by blast
    have inv': "pool_inv w queue (resume w queue ?k s)"
      using pool_inv_resume Cons.prems(1) ki by blast
    have "rejection (resume w queue ?k s) = rejection s"
      using resume_rejection Cons.prems ki by blast
    then show ?thesis using Cons.IH[OF inv' Cons.prems(2)] Cons by simp
  qed
qed

lemma pool_outstanding:
  assumes "pool_inv w queue s"
  shows "outstanding s = length (awaiting s)" and "outstanding s \<le> min MAX_CONCURRENT_REQUESTS (length queue)"
proof -
  note D = pool_invD[OF assms]
  have "length (fetches s) = index s" using D(3) D(2) by simp
  then show o: "outstanding s = length (awaiting s)"
    using D(10) unfolding outstanding_def awaiting_length by simp
  have "length (filter is_awaiting (workers s)) \<le> length (workers s)" by (rule length_filter_le)
  then show "outstanding s \<le> min MAX_CONCURRENT_REQUESTS (length queue)"
    using o D(4) unfolding awaiting_length by simp
qed

lemma map_href_Inr:
  "map_href w base fs = Inr queue \<Longrightarrow>
   length queue = length fs \<and> (\<forall>i<length fs. new_URL w (fs ! i) base = Inr (queue ! i))"
proof (induction fs arbitrary: queue)
  case Nil
  then show ?case by simp
next
  case (Cons f fs)
  from Cons.prems obtain u us where u: "new_URL w f base = Inr u" and us: "map_href w base fs = Inr us"
    and q: "queue = u # us"
    by (auto split: sum.splits)
  show ?case using Cons.IH[OF us] u q by (auto simp: nth_Cons split: nat.splits)
qed

lemma load_individual_ok:
  assumes q: "map_href w base fnames = Inr queue"
    and ok: "\<forall>u\<in>set queue. \<exists>b. fetchBitmap w u = Inr b"
    and len: "length fnames \<le> length cs"
  shows "\<exists>imgs. load_individual w base fnames cs = Fulfilled (map Some imgs) \<and>
            length imgs = length fnames \<and>
            (\<forall>i<length fnames. fetchBitmap w (queue ! i) = Inr (imgs ! i))"
proof -
  let ?s = "run_pool w queue cs (pool_init queue)"
  have lq: "length queue = length fnames" using map_href_Inr[OF q] by simp
  have inv: "pool_inv w queue ?s" by (rule run_pool_inv) (rule pool_inv_init)
  have aw: "awaiting ?s = []"
    by (rule run_pool_settles) (simp_all add: pool_inv_init todo_init lq len)
  have rej: "rejection ?s = None"
    using run_pool_rejection[OF pool_inv_init ok, of cs] by (simp add: pool_init_eq)
  note F = settled_ok[OF inv aw rej]
  define imgs where "imgs = map the (results ?s)"
  have li: "length imgs = length queue" by (simp add: imgs_def F(3))
  have some: "results ?s ! j = Some (imgs ! j) \<and> fetchBitmap w (queue ! j) = Inr (imgs ! j)"
    if j: "j < length queue" for j
  proof -
    obtain bmp where b: "results ?s ! j = Some bmp" "fetchBitmap w (queue ! j) = Inr bmp"
      using F(4)[OF j] by blast
    have "imgs ! j = the (results ?s ! j)" using j F(3) by (simp add: imgs_def)
    then show ?thesis using b by simp
  qed
  have r: "results ?s = map Some imgs"
  proof (rule nth_equalityI)
    show "length (results ?s) = length (map Some imgs)" by (simp add: li F(3))
    fix j assume "j < length (results ?s)"
    then show "results ?s ! j = map Some imgs ! j" using some[of j] F(3) li by simp
  qed
  have "load_individual w base fnames cs = Fulfilled (map Some imgs)"
    by (simp add: load_individual_def q promise_all_def rej aw r[symmetric])
  moreover have "length imgs = length fnames" by (simp add: li lq)
  moreover have "\<forall>i<length fnames. fetchBitmap w (queue ! i) = Inr (imgs ! i)"
    using some lq by simp
  ultimately show ?thesis by blast
qed

lemma promise_all_Fulfilled:
  "promise_all s = Fulfilled fs \<longleftrightarrow> rejection s = None \<and> awaiting s = [] \<and> fs = results s"
  by (auto simp: promise_all_def split: option.splits if_splits)

lemma promise_all_Pending:
  "promise_all s = Pending \<longleftrightarrow> rejection s = None \<and> awaiting s \<noteq> []"
  by (auto simp: promise_all_def split: option.splits if_splits)

lemma pool_Fulfilled:
  assumes "promise_all (run_pool w queue cs (pool_init queue)) = Fulfilled fs"
  shows "length fs = length queue"
    and "\<And>j. j < length queue \<Longrightarrow> \<exists>bmp. fs ! j = Some bmp \<and> fetchBitmap w (queue ! j) = Inr bmp"
proof -
  let ?s = "run_pool w queue cs (pool_init queue)"
  have inv: "pool_inv w queue ?s" by (rule run_pool_inv) (rule pool_inv_init)
  have a: "rejection ?s = None" "awaiting ?s = []" "fs = results ?s"
    using assms by (simp_all add: promise_all_Fulfilled)
  show "length fs = length queue" using settled_ok(3)[OF inv a(2) a(1)] a(3) by simp
  show "\<And>j. j < length queue \<Longrightarrow> \<exists>bmp. fs ! j = Some bmp \<and> fetchBitmap w (queue ! j) = Inr bmp"
    using settled_ok(4)[OF inv a(2) a(1)] a(3) by simp
qed

lemma pool_never_Fulfilled:
  assumes "\<exists>u\<in>set queue. \<exists>e. fetchBitmap w u = Inl e"
  shows "promise_all (run_pool w queue cs (pool_init queue)) \<noteq> Fulfilled fs"
proof
  assume F: "promise_all (run_pool w queue cs (pool_init queue)) = Fulfilled fs"
  from assms obtain j e where j: "j < length queue" "fetchBitmap w (queue ! j) = Inl e"
    by (auto simp: in_set_conv_nth)
  from pool_Fulfilled(2)[OF F j(1)] j(2) show False by simp
qed

lemma pool_settles:
  assumes "length queue \<le> length cs"
  shows "promise_all (run_pool w queue cs (pool_init queue)) \<noteq> Pending"
proof -
  have "awaiting (run_pool w queue cs (pool_init queue)) = []"
    by (rule run_pool_settles) (simp_all add: pool_inv_init todo_init assms)
  then show ?thesis by (simp add: promise_all_Pending)
qed

lemma pool_fetches_prefix:
  "fetches (run_pool w queue cs (pool_init queue)) =
     take (length (fetches (run_pool w queue cs (pool_init queue)))) queue"
proof -
  let ?s = "run_pool w queue cs (pool_init queue)"
  have inv: "pool_inv w queue ?s" by (rule run_pool_inv) (rule pool_inv_init)
  have "length (fetches ?s) = index ?s" using pool_invD(3)[OF inv] pool_invD(2)[OF inv] by simp
  then show ?thesis using pool_invD(3)[OF inv] by simp
qed

text \<open>While every fetch succeeds, each settled fetch takes exactly one unit of the work
  left, so the promise stays pending until all of them have settled.\<close>

lemma run_pool_todo:
  assumes ok: "\<forall>u\<in>set queue. \<exists>b. fetchBitmap w u = Inr b"
  shows "pool_inv w queue s \<Longrightarrow> rejection s = None \<Longrightarrow>
         todo queue (run_pool w queue cs s) = todo queue s - length cs"
proof (induction cs arbitrary: s)
  case Nil
  then show ?case by simp
next
  case (Cons c cs)
  show ?case
  proof (cases "awaiting s")
    case Nil
    have "index s = length queue" using settled_ok(1)[OF Cons.prems(1) Nil Cons.prems(2)] .
    then have "todo queue s = 0" by (simp add: todo_def Nil)
    then show ?thesis using Nil by simp
  next
    case (Cons k ks)
    let ?k = "(k # ks) ! (c mod length (k # ks))"
    have "?k \<in> set (awaiting s)" unfolding Cons by (rule pick_mem) simp
    then obtain i where ki: "?k < length (workers s)" "workers s ! ?k = Awaiting i"
      using awaiting_mem by blast
    have inv': "pool_inv w queue (resume w queue ?k s)"
      using pool_inv_resume Cons.prems(1) ki by blast
    have rej': "rejection (resume w queue ?k s) = None"
      using resume_rejection[OF Cons.prems(1) ki ok] Cons.prems(2) by simp
    have "todo queue (resume w queue ?k s) + 1 = todo queue s"
      using todo_resume Cons.prems(1) ki by blast
    then show ?thesis using Cons.IH[OF inv' rej'] Cons by simp
  qed
qed

lemma pool_pending_short:
  assumes ok: "\<forall>u\<in>set queue. \<exists>b. fetchBitmap w u = Inr b" and short: "length cs < length queue"
  shows "promise_all (run_pool w queue cs (pool_init queue)) = Pending"
proof -
  let ?s = "run_pool w queue cs (pool_init queue)"
  have inv: "pool_inv w queue ?s" by (rule run_pool_inv) (rule pool_inv_init)
  have r0: "rejection (pool_init queue) = None" by (simp add: pool_init_eq)
  have rej: "rejection ?s = None"
    using run_pool_rejection[OF pool_inv_init ok, of cs] r0 by simp
  have "todo queue ?s = length queue - length cs"
    using run_pool_todo[OF ok pool_inv_init r0, of cs] by (simp add: todo_init)
  then have pos: "0 < todo queue ?s" using short by simp
  have "awaiting ?s \<noteq> []"
  proof
    assume aw: "awaiting ?s = []"
    have "index ?s = length queue" using settled_ok(1)[OF inv aw rej] .
    then show False using pos aw by (simp add: todo_def)
  qed
  then show ?thesis using rej by (simp add: promise_all_Pending)
qed

section \<open>Individual mode assembles the frames by index\<close>

text \<open>
  Claim C1. In individual mode (no archive name, every URL parses, every fetch and
  decode succeeds) the queue holds the URL of \<^verbatim>\<open>frames[i]\<close> at position \<open>i\<close>, and there
  is one list of images, the image at position \<open>i\<close> being the one decoded from that
  URL, such that for every order \<open>cs\<close> in which fetches settle the promise of
  \<^verbatim>\<open>loadFrames\<close> is pending as long as fewer fetches have settled than there are
  frames, and is fulfilled with exactly that list once all have: never with fewer
  images, and never in another order. The fetches issued are at every moment an
  initial segment of the queue, and the whole queue, each URL once, at the end.
\<close>

theorem loadFrames_individual_by_index:
  assumes "base_url w p m = Inr base"
    and "zip_name (zip_entry m) = None"
    and "map_href w base (frames m) = Inr queue"
    and "\<forall>u\<in>set queue. \<exists>b. fetchBitmap w u = Inr b"
  shows "length queue = length (frames m) \<and>
         (\<forall>i<length (frames m). new_URL w (frames m ! i) base = Inr (queue ! i)) \<and>
         (\<exists>imgs. length imgs = length (frames m) \<and>
            (\<forall>i<length (frames m). fetchBitmap w (queue ! i) = Inr (imgs ! i)) \<and>
            (\<forall>cs. loadFrames w p m cs =
                     (if length cs < length (frames m) then Pending else Fulfilled (map Some imgs)) \<and>
                   fetches (run_pool w queue cs (pool_init queue)) =
                     take (length (fetches (run_pool w queue cs (pool_init queue)))) queue \<and>
                   (length (frames m) \<le> length cs \<longrightarrow>
                      fetches (run_pool w queue cs (pool_init queue)) = queue)))"
proof -
  have lq: "length queue = length (frames m)"
    and nu: "\<forall>i<length (frames m). new_URL w (frames m ! i) base = Inr (queue ! i)"
    using map_href_Inr[OF assms(3)] by simp_all
  define imgs where "imgs = map (\<lambda>u. projr (fetchBitmap w u)) queue"
  have li: "length imgs = length (frames m)" by (simp add: imgs_def lq)
  have fb: "fetchBitmap w (queue ! i) = Inr (imgs ! i)" if "i < length (frames m)" for i
  proof -
    have "queue ! i \<in> set queue" using that lq by simp
    then obtain b where "fetchBitmap w (queue ! i) = Inr b" using assms(4) by blast
    then show ?thesis using that lq by (simp add: imgs_def)
  qed
  have L: "loadFrames w p m cs = promise_all (run_pool w queue cs (pool_init queue))" for cs
    by (simp add: loadFrames_def assms(1,2,3) load_individual_def)
  have A: "loadFrames w p m cs =
             (if length cs < length (frames m) then Pending else Fulfilled (map Some imgs))" for cs
  proof (cases "length cs < length (frames m)")
    case True
    then show ?thesis unfolding L using pool_pending_short[OF assms(4), of cs] lq by simp
  next
    case False
    then have len: "length (frames m) \<le> length cs" by simp
    obtain imgs' where i': "load_individual w base (frames m) cs = Fulfilled (map Some imgs')"
      "length imgs' = length (frames m)"
      "\<forall>i<length (frames m). fetchBitmap w (queue ! i) = Inr (imgs' ! i)"
      using load_individual_ok[OF assms(3,4) len] by blast
    have "imgs' = imgs"
    proof (rule nth_equalityI)
      show "length imgs' = length imgs" using i'(2) li by simp
      fix i assume "i < length imgs'"
      then have "i < length (frames m)" using i'(2) by simp
      then show "imgs' ! i = imgs ! i" using i'(3) fb by fastforce
    qed
    then show ?thesis using i'(1) False by (simp add: loadFrames_def assms(1,2))
  qed
  have B: "fetches (run_pool w queue cs (pool_init queue)) =
             take (length (fetches (run_pool w queue cs (pool_init queue)))) queue" for cs
    by (rule pool_fetches_prefix)
  have C: "fetches (run_pool w queue cs (pool_init queue)) = queue"
    if len: "length (frames m) \<le> length cs" for cs
  proof -
    let ?s = "run_pool w queue cs (pool_init queue)"
    have inv: "pool_inv w queue ?s" by (rule run_pool_inv) (rule pool_inv_init)
    have aw: "awaiting ?s = []"
      by (rule run_pool_settles) (simp_all add: pool_inv_init todo_init lq len)
    have rej: "rejection ?s = None"
      using run_pool_rejection[OF pool_inv_init assms(4), of cs] by (simp add: pool_init_eq)
    show ?thesis using settled_ok(2)[OF inv aw rej] .
  qed
  show ?thesis using lq nu li fb A B C by blast
qed

theorem loadFrames_individual_by_index_witness:
  "base_url W0 P0 M0 = Inr ''/'' \<and>
   zip_name (zip_entry M0) = None \<and>
   map_href W0 ''/'' (frames M0) = Inr [''/a.jpg'', ''/b.jpg'', ''/c.jpg''] \<and>
   fetchBitmap W0 ''/a.jpg'' = Inr (ImageBitmap ''/a.jpg'') \<and>
   fetchBitmap W0 ''/b.jpg'' = Inr (ImageBitmap ''/b.jpg'') \<and>
   fetchBitmap W0 ''/c.jpg'' = Inr (ImageBitmap ''/c.jpg'') \<and>
   loadFrames W0 P0 M0 [] = Pending \<and>
   loadFrames W0 P0 M0 [2, 0] = Pending \<and>
   loadFrames W0 P0 M0 [2, 0, 1] =
     Fulfilled [Some (ImageBitmap ''/a.jpg''), Some (ImageBitmap ''/b.jpg''),
                Some (ImageBitmap ''/c.jpg'')] \<and>
   fetches (run_pool W0 [''/a.jpg'', ''/b.jpg'', ''/c.jpg''] [2, 0, 1]
              (pool_init [''/a.jpg'', ''/b.jpg'', ''/c.jpg''])) = [''/a.jpg'', ''/b.jpg'', ''/c.jpg'']"
proof -
  let ?q = "[''/a.jpg'', ''/b.jpg'', ''/c.jpg'']"
  have h1: "base_url W0 P0 M0 = Inr ''/''" by code_simp
  have h2: "zip_name (zip_entry M0) = None" by code_simp
  have h3: "map_href W0 ''/'' (frames M0) = Inr ?q" by code_simp
  have f: "fetchBitmap W0 ''/a.jpg'' = Inr (ImageBitmap ''/a.jpg'')"
    "fetchBitmap W0 ''/b.jpg'' = Inr (ImageBitmap ''/b.jpg'')"
    "fetchBitmap W0 ''/c.jpg'' = Inr (ImageBitmap ''/c.jpg'')"
    by code_simp+
  have h4: "\<forall>u\<in>set ?q. \<exists>b. fetchBitmap W0 u = Inr b" using f by simp
  have l: "length (frames M0) = 3" by code_simp
  obtain imgs where i2: "length imgs = length (frames M0)"
    and i3: "\<forall>i<length (frames M0). fetchBitmap W0 (?q ! i) = Inr (imgs ! i)"
    and i4: "\<forall>cs. loadFrames W0 P0 M0 cs =
                     (if length cs < length (frames M0) then Pending else Fulfilled (map Some imgs)) \<and>
                   fetches (run_pool W0 ?q cs (pool_init ?q)) =
                     take (length (fetches (run_pool W0 ?q cs (pool_init ?q)))) ?q \<and>
                   (length (frames M0) \<le> length cs \<longrightarrow> fetches (run_pool W0 ?q cs (pool_init ?q)) = ?q)"
    using loadFrames_individual_by_index[OF h1 h2 h3 h4] by blast
  have e: "imgs ! 0 = ImageBitmap ''/a.jpg''" "imgs ! 1 = ImageBitmap ''/b.jpg''"
    "imgs ! 2 = ImageBitmap ''/c.jpg''"
    using i3[rule_format, of 0] i3[rule_format, of 1] i3[rule_format, of 2] l f by simp_all
  have "imgs = [imgs ! 0, imgs ! 1, imgs ! 2]"
    using i2 l by (auto simp: list_eq_iff_nth_eq less_Suc_eq numeral_3_eq_3 numeral_2_eq_2)
  then have im: "map Some imgs =
      [Some (ImageBitmap ''/a.jpg''), Some (ImageBitmap ''/b.jpg''), Some (ImageBitmap ''/c.jpg'')]"
    using e by (metis list.simps(8,9))
  have p0: "loadFrames W0 P0 M0 [] = Pending" using i4[rule_format, of "[]"] l by simp
  have p2: "loadFrames W0 P0 M0 [2, 0] = Pending" using i4[rule_format, of "[2, 0]"] l by simp
  have p3: "loadFrames W0 P0 M0 [2, 0, 1] =
     Fulfilled [Some (ImageBitmap ''/a.jpg''), Some (ImageBitmap ''/b.jpg''),
                Some (ImageBitmap ''/c.jpg'')]"
    using i4[rule_format, of "[2, 0, 1]"] l im by simp
  have p4: "fetches (run_pool W0 ?q [2, 0, 1] (pool_init ?q)) = ?q"
    using i4[rule_format, of "[2, 0, 1]"] l by simp
  show ?thesis using h1 h2 h3 f p0 p2 p3 p4 by blast
qed

section \<open>The pool never has more than eight fetches in flight\<close>

text \<open>
  Claim C9. For a frame list of length \<open>N\<close> the pool has \<open>min 8 N\<close> workers, and in
  every state it reaches, while the workers are being started and after any number
  of fetches has settled in any order, at most \<open>min 8 N\<close> fetches are outstanding.
\<close>

theorem pool_bounded_concurrency:
  assumes "map_href w base fnames = Inr queue"
  shows "length (workers (run_pool w queue cs (pool_init queue))) = min 8 (length fnames) \<and>
         outstanding (run_pool w queue cs (pool_init queue)) \<le> min 8 (length fnames) \<and>
         (\<forall>n\<le>min 8 (length fnames).
            outstanding ((spawn queue ^^ n) \<lparr>index = 0, results = replicate (length queue) None,
               workers = [], fetches = [], settled = 0, rejection = None\<rparr>) = n)"
proof -
  let ?s = "run_pool w queue cs (pool_init queue)"
  have lq: "length queue = length fnames" using map_href_Inr[OF assms] by simp
  have inv: "pool_inv w queue ?s" by (rule run_pool_inv) (rule pool_inv_init)
  have a: "length (workers ?s) = min 8 (length fnames)"
    using pool_invD(4)[OF inv] by (simp add: MAX_CONCURRENT_REQUESTS_def lq)
  have b: "outstanding ?s \<le> min 8 (length fnames)"
    using pool_outstanding(2)[OF inv] by (simp add: MAX_CONCURRENT_REQUESTS_def lq)
  have c: "outstanding ((spawn queue ^^ n) \<lparr>index = 0, results = replicate (length queue) None,
               workers = [], fetches = [], settled = 0, rejection = None\<rparr>) = n"
    if "n \<le> min 8 (length fnames)" for n
    using that by (simp add: spawn_pow lq outstanding_def)
  show ?thesis using a b c by blast
qed

theorem pool_bounded_concurrency_witness:
  "map_href W0 ''/'' (frames M0) = Inr [''/a.jpg'', ''/b.jpg'', ''/c.jpg''] \<and>
   outstanding (run_pool W0 [''/a.jpg'', ''/b.jpg'', ''/c.jpg''] [1] (pool_init [''/a.jpg'', ''/b.jpg'', ''/c.jpg''])) \<le> 3"
proof -
  have h: "map_href W0 ''/'' (frames M0) = Inr [''/a.jpg'', ''/b.jpg'', ''/c.jpg'']" by code_simp
  show ?thesis using h pool_bounded_concurrency[OF h, of "[1]"] by (simp add: M0_def)
qed

section \<open>Archive mode\<close>

lemma createBitmap_cases:
  "createBitmap w b = (if decodable w b then Inr (if hasCreateImageBitmap w then ImageBitmap b else HTMLImageElement b)
                       else Inl (DecodeError b))"
  by (simp add: createBitmap_def)

lemma zip_loop_char:
  "zip_loop w entries names acc =
     (case find (\<lambda>n. entry_image w entries n = None) names of
        None \<Rightarrow> Inr (acc @ map (\<lambda>n. the (entry_image w entries n)) names)
      | Some n \<Rightarrow> Inl (case jszip_file entries n of None \<Rightarrow> MissingInZip n | Some bl \<Rightarrow> DecodeError bl))"
proof (induction names arbitrary: acc)
  case Nil
  then show ?case by simp
next
  case (Cons n names)
  show ?case
  proof (cases "jszip_file entries n")
    case None
    then have "entry_image w entries n = None" by (simp add: entry_image_def)
    then show ?thesis using None by simp
  next
    case (Some bl)
    show ?thesis
    proof (cases "createBitmap w bl")
      case (Inl err)
      then have d: "err = DecodeError bl" by (simp add: createBitmap_cases split: if_splits)
      have "entry_image w entries n = None" using Some Inl by (simp add: entry_image_def)
      then show ?thesis using Some Inl d by simp
    next
      case (Inr bmp)
      have "entry_image w entries n = Some bmp" using Some Inr by (simp add: entry_image_def)
      then show ?thesis using Some Inr Cons.IH[of "acc @ [bmp]"] by (simp split: option.splits)
    qed
  qed
qed

lemma jszip_file_distinct:
  "distinct (map fst entries) \<Longrightarrow> jszip_file entries n = Some b \<longleftrightarrow> (n, b) \<in> set entries"
  unfolding jszip_file_def by (subst map_of_eq_Some_iff) (simp_all add: rev_map[symmetric])

lemma jszip_file_perm:
  assumes "distinct (map fst entries)" "distinct (map fst entries')" "set entries' = set entries"
  shows "jszip_file entries' = jszip_file entries"
proof
  fix n
  have "jszip_file entries' n = Some b \<longleftrightarrow> jszip_file entries n = Some b" for b
    using assms jszip_file_distinct[of entries n b] jszip_file_distinct[of entries' n b] by simp
  then show "jszip_file entries' n = jszip_file entries n"
    by (metis option.exhaust)
qed

lemma zip_loop_perm:
  assumes "distinct (map fst entries)" "distinct (map fst entries')" "set entries' = set entries"
  shows "zip_loop w' entries' names acc = zip_loop w' entries names acc"
  unfolding zip_loop_char entry_image_def jszip_file_perm[OF assms] ..

lemma load_zip_char:
  assumes u: "new_URL w z base = Inr zipUrl" and h: "http w zipUrl = Some body"
    and e: "unzip w body = Some entries"
  shows "load_zip w base z names =
     (case find (\<lambda>n. entry_image w entries n = None) names of
        None \<Rightarrow> Fulfilled (map (entry_image w entries) names)
      | Some n \<Rightarrow> Rejected (case jszip_file entries n of None \<Rightarrow> MissingInZip n | Some bl \<Rightarrow> DecodeError bl))"
proof (cases "find (\<lambda>n. entry_image w entries n = None) names")
  case None
  then have "\<forall>n\<in>set names. entry_image w entries n \<noteq> None" by (simp add: find_None_iff)
  then have "map Some (map (\<lambda>n. the (entry_image w entries n)) names) = map (entry_image w entries) names"
    by (induction names) auto
  then show ?thesis using None by (simp add: load_zip_def u h e zip_loop_char)
next
  case (Some n)
  then show ?thesis by (simp add: load_zip_def u h e zip_loop_char)
qed

text \<open>
  Claim C8, amended. With an archive named by the manifest (and fetched and opened),
  the promise of \<^verbatim>\<open>loadFrames\<close> is fulfilled with the image of the entry named
  \<^verbatim>\<open>frames[i]\<close> at position \<open>i\<close>, for every \<open>i\<close>; the result does not change when the
  entries of the archive, their names being distinct, are listed in another physical
  order; and when a declared name has no entry the promise is rejected. The error is
  that of the first declared name that has no entry or whose entry does not decode:
  it names the missing entry when that name has none, and it is the decode error of
  the entry otherwise.
\<close>

theorem archive_mode_manifest_order:
  assumes z: "zip_name (zip_entry m) = Some z"
    and b: "base_url w p m = Inr base"
    and u: "new_URL w z base = Inr zipUrl"
    and h: "http w zipUrl = Some body"
    and e: "unzip w body = Some entries"
  shows "((\<forall>n\<in>set (frames m). entry_image w entries n \<noteq> None) \<longrightarrow>
            loadFrames w p m cs = Fulfilled (map (entry_image w entries) (frames m))) \<and>
         (\<forall>entries'. distinct (map fst entries) \<and> distinct (map fst entries') \<and> set entries' = set entries \<longrightarrow>
            loadFrames (w\<lparr>unzip := (\<lambda>x. if x = body then Some entries' else unzip w x)\<rparr>) p m cs =
            loadFrames w p m cs) \<and>
         ((\<exists>n\<in>set (frames m). jszip_file entries n = None) \<longrightarrow>
            (\<exists>err. loadFrames w p m cs = Rejected err)) \<and>
         (\<forall>i<length (frames m).
            (\<forall>j<i. entry_image w entries (frames m ! j) \<noteq> None) \<and>
            jszip_file entries (frames m ! i) = None \<longrightarrow>
            loadFrames w p m cs = Rejected (MissingInZip (frames m ! i))) \<and>
         (\<forall>i<length (frames m). \<forall>bl.
            (\<forall>j<i. entry_image w entries (frames m ! j) \<noteq> None) \<and>
            jszip_file entries (frames m ! i) = Some bl \<and> \<not> decodable w bl \<longrightarrow>
            loadFrames w p m cs = Rejected (DecodeError bl))"
proof -
  have L: "loadFrames w p m cs = load_zip w base z (frames m)"
    by (simp add: loadFrames_def z b)
  note C = load_zip_char[OF u h e, of "frames m"]
  have 1: "loadFrames w p m cs = Fulfilled (map (entry_image w entries) (frames m))"
    if "\<forall>n\<in>set (frames m). entry_image w entries n \<noteq> None"
  proof -
    have "find (\<lambda>n. entry_image w entries n = None) (frames m) = None"
      using that by (simp add: find_None_iff)
    then show ?thesis using L C by simp
  qed
  have 2: "loadFrames (w\<lparr>unzip := (\<lambda>x. if x = body then Some entries' else unzip w x)\<rparr>) p m cs =
            loadFrames w p m cs"
    if d: "distinct (map fst entries)" "distinct (map fst entries')" "set entries' = set entries"
    for entries'
  proof -
    let ?w = "w\<lparr>unzip := (\<lambda>x. if x = body then Some entries' else unzip w x)\<rparr>"
    have nu: "new_URL ?w r u0 = new_URL w r u0" for r u0 by (simp add: new_URL_def)
    have bu: "base_url ?w p m = base_url w p m" by (simp add: base_url_def nu Let_def)
    have cb: "createBitmap ?w bl = createBitmap w bl" for bl by (simp add: createBitmap_def)
    have zl: "zip_loop ?w es ns acc = zip_loop w es ns acc" for es ns acc
      by (induction ns arbitrary: acc) (simp_all add: cb split: option.splits sum.splits)
    have "load_zip ?w base z (frames m) = load_zip w base z (frames m)"
      using zip_loop_perm[OF d, of w "frames m" "[]"]
      by (simp add: load_zip_def nu u h e zl)
    then show ?thesis by (simp add: loadFrames_def z b bu)
  qed
  have 3: "\<exists>err. loadFrames w p m cs = Rejected err"
    if "\<exists>n\<in>set (frames m). jszip_file entries n = None"
  proof -
    from that obtain n0 where n0: "n0 \<in> set (frames m)" "entry_image w entries n0 = None"
      by (auto simp: entry_image_def)
    then have "find (\<lambda>n. entry_image w entries n = None) (frames m) \<noteq> None"
      by (auto simp: find_None_iff)
    then show ?thesis using L C by auto
  qed
  have F: "loadFrames w p m cs =
             Rejected (case jszip_file entries (frames m ! i) of
                         None \<Rightarrow> MissingInZip (frames m ! i) | Some bl \<Rightarrow> DecodeError bl)"
    if i: "i < length (frames m)" and before: "\<forall>j<i. entry_image w entries (frames m ! j) \<noteq> None"
      and here: "entry_image w entries (frames m ! i) = None" for i
  proof -
    have "find (\<lambda>n. entry_image w entries n = None) (frames m) = Some (frames m ! i)"
      unfolding find_Some_iff using i before here by blast
    then show ?thesis using L C by simp
  qed
  have 4: "loadFrames w p m cs = Rejected (MissingInZip (frames m ! i))"
    if "i < length (frames m)" "\<forall>j<i. entry_image w entries (frames m ! j) \<noteq> None"
      "jszip_file entries (frames m ! i) = None" for i
    using F[OF that(1,2)] that(3) by (simp add: entry_image_def)
  have 5: "loadFrames w p m cs = Rejected (DecodeError bl)"
    if "i < length (frames m)" "\<forall>j<i. entry_image w entries (frames m ! j) \<noteq> None"
      "jszip_file entries (frames m ! i) = Some bl" "\<not> decodable w bl" for i bl
    using F[OF that(1,2)] that(3,4) by (simp add: entry_image_def createBitmap_cases)
  show ?thesis using 1 2 3 4 5 by blast
qed

theorem archive_mode_manifest_order_witness:
  "zip_name (zip_entry MZ) = Some ''frames.zip'' \<and>
   base_url W0 P0 MZ = Inr ''/'' \<and>
   new_URL W0 ''frames.zip'' ''/'' = Inr ''/frames.zip'' \<and>
   http W0 ''/frames.zip'' = Some ''/frames.zip'' \<and>
   unzip W0 ''/frames.zip'' = Some [(''c.jpg'', ''C''), (''b.jpg'', ''B''), (''a.jpg'', ''A'')] \<and>
   loadFrames W0 P0 MZ [] =
     Fulfilled [Some (ImageBitmap ''A''), Some (ImageBitmap ''B''), Some (ImageBitmap ''C'')] \<and>
   loadFrames W0 P0 MZ_missing [] = Rejected (MissingInZip ''d.jpg'')"
proof -
  let ?es = "[(''c.jpg'', ''C''), (''b.jpg'', ''B''), (''a.jpg'', ''A'')]"
  have z: "zip_name (zip_entry MZ) = Some ''frames.zip''" by code_simp
  have b: "base_url W0 P0 MZ = Inr ''/''" by code_simp
  have u: "new_URL W0 ''frames.zip'' ''/'' = Inr ''/frames.zip''" by code_simp
  have h: "http W0 ''/frames.zip'' = Some ''/frames.zip''" by code_simp
  have e: "unzip W0 ''/frames.zip'' = Some ?es" by code_simp
  have a: "\<forall>n\<in>set (frames MZ). entry_image W0 ?es n \<noteq> None" by code_simp
  have m: "map (entry_image W0 ?es) (frames MZ) =
     [Some (ImageBitmap ''A''), Some (ImageBitmap ''B''), Some (ImageBitmap ''C'')]" by code_simp
  have 1: "loadFrames W0 P0 MZ [] =
     Fulfilled [Some (ImageBitmap ''A''), Some (ImageBitmap ''B''), Some (ImageBitmap ''C'')]"
    using archive_mode_manifest_order[OF z b u h e, of "[]"] a m by simp
  have z': "zip_name (zip_entry MZ_missing) = Some ''frames.zip''" by code_simp
  have b': "base_url W0 P0 MZ_missing = Inr ''/''" by code_simp
  have fr: "frames MZ_missing = [''a.jpg'', ''d.jpg'', ''c.jpg'']" by code_simp
  have x: "entry_image W0 ?es ''a.jpg'' \<noteq> None" "jszip_file ?es ''d.jpg'' = None" by code_simp+
  have i1: "(1::nat) < length (frames MZ_missing)" by (simp add: fr)
  have i2: "\<forall>j<1. entry_image W0 ?es (frames MZ_missing ! j) \<noteq> None" using x(1) by (simp add: fr)
  have i3: "jszip_file ?es (frames MZ_missing ! 1) = None" using x(2) by (simp add: fr)
  note T = archive_mode_manifest_order[OF z' b' u h e, of "[]"]
  have "loadFrames W0 P0 MZ_missing [] = Rejected (MissingInZip (frames MZ_missing ! 1))"
    by (rule T[THEN conjunct2, THEN conjunct2, THEN conjunct2, THEN conjunct1, rule_format, OF i1])
       (use i2 i3 in blast)
  then have 2: "loadFrames W0 P0 MZ_missing [] = Rejected (MissingInZip ''d.jpg'')"
    by (simp add: fr)
  show ?thesis using z b u h e 1 2 by blast
qed

theorem archive_mode_manifest_order_counterexample:
  "frames MZ_missing = [''a.jpg'', ''d.jpg'', ''c.jpg''] \<and>
   unzip W_undecodable ''/frames.zip'' = Some [(''c.jpg'', ''C''), (''b.jpg'', ''B''), (''a.jpg'', ''A'')] \<and>
   jszip_file [(''c.jpg'', ''C''), (''b.jpg'', ''B''), (''a.jpg'', ''A'')] ''d.jpg'' = None \<and>
   loadFrames W_undecodable P0 MZ_missing [] = Rejected (DecodeError ''A'') \<and>
   unzip W_twice ''/frames.zip'' = Some [(''a.jpg'', ''A''), (''a.jpg'', ''B'')] \<and>
   unzip W_twice_swapped ''/frames.zip'' = Some [(''a.jpg'', ''B''), (''a.jpg'', ''A'')] \<and>
   loadFrames W_twice P0 MZ_one [] = Fulfilled [Some (ImageBitmap ''B'')] \<and>
   loadFrames W_twice_swapped P0 MZ_one [] = Fulfilled [Some (ImageBitmap ''A'')]"
  by code_simp

section \<open>The player: lemmas\<close>


lemma ready_empty_reached:
  "fst (session W0 P0 [ManifestSettled (Some M_empty), FramesSettled [], CanPlayThrough,
                       PlaySettled True 0] mount) = ready_empty"
  by code_simp




lemma cancel_raf_fst:
  "fst (cancel_raf s) = s\<lparr>callbacks := (case rafRef s of None \<Rightarrow> callbacks s | Some h \<Rightarrow> removeAll h (callbacks s))\<rparr>"
  by (simp add: cancel_raf_def cancelAnimationFrame_def split: option.splits)



lemma drawn_append: "drawn (a @ b) = drawn a @ drawn b"
  by (induction a rule: drawn.induct) simp_all

lemma drawn_drawFrame: "drawn (drawFrame i s) = [i]"
  by (simp add: drawFrame_def split: option.splits)

lemma drawFrame_noop:
  "frame_at (framesRef s) i = None \<or> \<not> canvasRef s \<Longrightarrow> drawFrame i s = [DrawFrame i]"
  by (auto simp: drawFrame_def split: option.splits)

lemma drawFrame_cong:
  "framesRef s' = framesRef s \<Longrightarrow> canvasRef s' = canvasRef s \<Longrightarrow> drawFrame i s' = drawFrame i s"
  by (simp add: drawFrame_def cong: option.case_cong)

lemma strict_neq_Num: "strict_neq (Num a) c \<longleftrightarrow> c \<noteq> Num a"
  by (auto simp: strict_neq_def)



lemma draw_and_schedule_eq:
  "draw_and_schedule i s =
     (s\<lparr>currentFrameRef := i,
        callbacks := callbacks s @ [nextHandle s],
        nextHandle := nextHandle s + 1,
        rafRef := Some (nextHandle s)\<rparr>,
      (if strict_neq i (currentFrameRef s) then drawFrame i s else []) @
        [RequestAnimationFrame (nextHandle s)])"
proof (cases "strict_neq i (currentFrameRef s)")
  case True
  then show ?thesis
    by (simp add: draw_and_schedule_def requestAnimationFrame_def Let_def drawFrame_def
        cong: option.case_cong)
next
  case False
  then have "currentFrameRef s = i" by (simp add: strict_neq_def)
  then have "s\<lparr>currentFrameRef := i\<rparr> = s" by simp
  then show ?thesis using False
    by (simp add: draw_and_schedule_def requestAnimationFrame_def Let_def)
qed

lemma restart_audio_eq:
  "restart_audio s =
     (s\<lparr>audioRef := (case audioRef s of None \<Rightarrow> None
                      | Some a \<Rightarrow> Some (if ended a then a\<lparr>paused := False, ended := False, currentTime := 0\<rparr> else a))\<rparr>,
      (case audioRef s of None \<Rightarrow> [] | Some a \<Rightarrow> if ended a then [AudioSeek 0, AudioPlay] else []))"
  by (simp add: restart_audio_def split: option.splits)

lemma tick_plain:
  assumes "manifestRef s = Some m" "\<not> num_ge (frame_index p m now s) (int (length (framesRef s)))"
  shows "tick p now s = draw_and_schedule (frame_index p m now s) s"
  using assms by (simp add: tick_def Let_def)

lemma tick_wrap:
  assumes "manifestRef s = Some m" "num_ge (frame_index p m now s) (int (length (framesRef s)))" "loop p"
  shows "tick p now s =
     (fst (draw_and_schedule (js_rem (frame_index p m now s) (length (framesRef s))) (fst (restart_audio s))),
      snd (restart_audio s) @
      snd (draw_and_schedule (js_rem (frame_index p m now s) (length (framesRef s))) (fst (restart_audio s))))"
  using assms by (simp add: tick_def Let_def split: prod.splits)

lemma tick_end:
  assumes "manifestRef s = Some m" "num_ge (frame_index p m now s) (int (length (framesRef s)))" "\<not> loop p"
  shows "tick p now s =
     (fst (cancel_raf s),
      drawFrame (Num (int (length (framesRef s)) - 1)) s @ snd (cancel_raf s) @
        (if onEnd p then [CallOnEnd] else []))"
  using assms by (simp add: tick_def Let_def split: prod.splits)

text \<open>The frame rate is never zero; the frame index is 0 at the start, never \<^verbatim>\<open>NaN\<close>,
  and does not decrease with the clock when the rate is positive.\<close>

lemma or_num_eq: "or_num x d = (case x of Some f \<Rightarrow> if f \<noteq> 0 then f else d | None \<Rightarrow> d)"
  by (cases x) simp_all


lemma frame_index_at_start: "frame_index p m (startTimeRef s) s = Num 0"
  by (simp add: frame_index_def d_sub_def round_double_zero)

lemma frame_index_mono:
  assumes "0 < effective_fps p m" "t \<le> t'" "num_ge (frame_index p m t s) c"
  shows "num_ge (frame_index p m t' s) c"
proof -
  have "dle (d_mul (d_div1000 (d_sub t (startTimeRef s))) (effective_fps p m))
            (d_mul (d_div1000 (d_sub t' (startTimeRef s))) (effective_fps p m))"
    by (intro d_mul_mono d_div1000_mono d_sub_mono assms(1,2))
  then show ?thesis using assms(3) unfolding frame_index_def by (rule d_floor_mono)
qed

lemma frame_index_nonneg:
  assumes "0 < effective_fps p m" "startTimeRef s \<le> now"
  shows "num_ge (frame_index p m now s) 0"
  by (rule frame_index_mono[OF assms]) (simp add: frame_index_at_start)


text \<open>At the frame rate \<open>2 ^ 1023\<close> the product overflows two seconds after the start.\<close>

lemma frame_index_overflow: "frame_index P_fast M0 2000 ready0 = PosInf"
proof -
  have f: "effective_fps P_fast M0 = 2 ^ 1023"
    by (simp add: effective_fps_def P_fast_def looping0_def P0_def)
  have a: "d_sub 2000 (startTimeRef ready0) = Finite 2000" by code_simp
  have b: "d_div1000 (Finite 2000) = Finite 2" by code_simp
  have c: "d_mul (Finite 2) (2 ^ 1023) = PlusInfinity" by (simp add: round_double_overflow)
  show ?thesis unfolding frame_index_def f a b c by simp
qed

lemma js_rem_nonneg: "0 \<le> a \<Longrightarrow> 0 < n \<Longrightarrow> js_rem (Num a) n = Num (a mod int n)"
  by (simp add: sgn_if)

lemma js_rem_NaN: "js_rem i n = NaN \<longleftrightarrow> n = 0 \<or> i = PosInf \<or> i = NegInf \<or> i = NaN"
  by (cases i) simp_all



lemma play_no_callbacks: "callbacks s = [] \<Longrightarrow> play p ts s = (s, [])"
  by (induction ts) (simp_all add: animation_frame_def)

lemma animation_frame_single:
  "callbacks s = [h] \<Longrightarrow> animation_frame p now s = tick p now (s\<lparr>callbacks := []\<rparr>)"
  by (simp add: animation_frame_def run_callback_def split: prod.splits)


text \<open>A tick that goes on.\<close>

lemma tick_continue_eq:
  assumes m: "manifestRef s = Some m"
    and c: "loop p \<or> \<not> num_ge (frame_index p m now s) (int (length (framesRef s)))"
  shows "tick p now s =
     (s\<lparr>audioRef := (if num_ge (frame_index p m now s) (int (length (framesRef s)))
                      then audioRef (fst (restart_audio s)) else audioRef s),
        currentFrameRef := target p m now s,
        callbacks := callbacks s @ [nextHandle s],
        nextHandle := nextHandle s + 1,
        rafRef := Some (nextHandle s)\<rparr>,
      (if num_ge (frame_index p m now s) (int (length (framesRef s)))
       then snd (restart_audio s) else []) @
      (if strict_neq (target p m now s) (currentFrameRef s) then drawFrame (target p m now s) s else []) @
      [RequestAnimationFrame (nextHandle s)])"
proof (cases "num_ge (frame_index p m now s) (int (length (framesRef s)))")
  case False
  then have t: "tick p now s = draw_and_schedule (target p m now s) s"
    using tick_plain[OF m] by (simp add: target_def)
  show ?thesis
    unfolding t draw_and_schedule_eq using False by simp
next
  case True
  then have lp: "loop p" using c by simp
  let ?s1 = "fst (restart_audio s)"
  have t: "tick p now s =
       (fst (draw_and_schedule (target p m now s) ?s1),
        snd (restart_audio s) @ snd (draw_and_schedule (target p m now s) ?s1))"
    using tick_wrap[OF m True lp] True by (simp add: target_def)
  have d: "drawFrame i ?s1 = drawFrame i s" for i
    by (rule drawFrame_cong) (simp_all add: restart_audio_eq)
  show ?thesis
    unfolding t draw_and_schedule_eq d using True
    by (simp add: restart_audio_eq)
qed

lemma tick_continue_drawn:
  assumes "manifestRef s = Some m"
    and "loop p \<or> \<not> num_ge (frame_index p m now s) (int (length (framesRef s)))"
  shows "drawn (snd (tick p now s)) =
           (if strict_neq (target p m now s) (currentFrameRef s) then [target p m now s] else [])"
  unfolding tick_continue_eq[OF assms]
  by (simp add: drawn_append drawn_drawFrame restart_audio_eq split: option.splits)








lemma AudioPlay_drawFrame: "AudioPlay \<notin> set (drawFrame i s)"
  by (simp add: drawFrame_def split: option.splits)

section \<open>A tick on an empty frame store\<close>

text \<open>
  Claim C10. With an empty frame store, \<^verbatim>\<open>loop\<close> false, a positive frame rate and a
  clock that has not run backwards, the first animation frame calls
  \<^verbatim>\<open>drawFrame(-1)\<close>, cancels the handle in \<^verbatim>\<open>rafRef\<close>, calls \<^verbatim>\<open>onEnd\<close> once (when the
  host supplied it) and schedules nothing: no later animation frame has any effect.
  \<^verbatim>\<open>drawFrame\<close> touches the canvas only when the store has an image at the index and
  the 2D context exists.
\<close>

theorem tick_empty_store:
  assumes m: "manifestRef s = Some m" and e: "framesRef s = []" and nl: "\<not> loop p"
    and f: "0 < effective_fps p m" and t: "startTimeRef s \<le> now"
    and c: "callbacks s = [h]" and r: "rafRef s = Some h"
  shows "animation_frame p now s =
           (s\<lparr>callbacks := []\<rparr>,
            [DrawFrame (Num (- 1)), CancelAnimationFrame h] @ (if onEnd p then [CallOnEnd] else [])) \<and>
         drawFrame (Num (- 1)) s = [DrawFrame (Num (- 1))] \<and>
         ends (snd (animation_frame p now s)) = (if onEnd p then 1 else 0) \<and>
         play p ts (fst (animation_frame p now s)) = (fst (animation_frame p now s), []) \<and>
         (\<forall>i s'. frame_at (framesRef s') i = None \<or> \<not> canvasRef s' \<longrightarrow> drawFrame i s' = [DrawFrame i])"
proof -
  let ?s = "s\<lparr>callbacks := []\<rparr>"
  have i: "num_ge (frame_index p m now ?s) (int (length (framesRef ?s)))"
    using frame_index_nonneg[OF f, of ?s now] t e by simp
  have d: "drawFrame (Num (- 1)) s = [DrawFrame (Num (- 1))]"
    by (rule drawFrame_noop) (simp add: e)
  have d': "drawFrame (Num (- 1)) ?s = [DrawFrame (Num (- 1))]"
    by (rule drawFrame_noop) (simp add: e)
  have cr: "cancel_raf ?s = (?s, [CancelAnimationFrame h])"
    by (simp add: cancel_raf_def cancelAnimationFrame_def r)
  have a: "animation_frame p now s =
           (?s, [DrawFrame (Num (- 1)), CancelAnimationFrame h] @ (if onEnd p then [CallOnEnd] else []))"
    unfolding animation_frame_single[OF c]
    using tick_end[of ?s m p now] m i nl by (simp add: e d' cr)
  have pl: "play p ts (fst (animation_frame p now s)) = (fst (animation_frame p now s), [])"
    by (rule play_no_callbacks) (simp add: a)
  have n: "ends (snd (animation_frame p now s)) = (if onEnd p then 1 else 0)"
    by (simp add: a ends_def)
  show ?thesis using a d pl n drawFrame_noop by blast
qed

theorem tick_empty_store_witness:
  "manifestRef ready_empty = Some M_empty \<and> framesRef ready_empty = [] \<and> \<not> loop P0 \<and>
   0 < effective_fps P0 M_empty \<and> startTimeRef ready_empty \<le> 16 \<and>
   callbacks ready_empty = [1] \<and> rafRef ready_empty = Some 1 \<and>
   snd (animation_frame P0 16 ready_empty) = [DrawFrame (Num (- 1)), CancelAnimationFrame 1, CallOnEnd] \<and>
   callbacks (fst (animation_frame P0 16 ready_empty)) = []"
proof -
  have h1: "manifestRef ready_empty = Some M_empty" by (simp add: ready_empty_def)
  have h2: "framesRef ready_empty = []" by (simp add: ready_empty_def)
  have h3: "\<not> loop P0" by (simp add: P0_def)
  have h4: "0 < effective_fps P0 M_empty" by (simp add: effective_fps_def P0_def M_empty_def M0_def)
  have h5: "startTimeRef ready_empty \<le> 16" by (simp add: ready_empty_def ready0_def)
  have h6: "callbacks ready_empty = [1]" by (simp add: ready_empty_def ready0_def)
  have h7: "rafRef ready_empty = Some 1" by (simp add: ready_empty_def ready0_def)
  have o: "onEnd P0" by (simp add: P0_def)
  show ?thesis
    using tick_empty_store[OF h1 h2 h3 h4 h5 h6 h7, of "[]"] h1 h2 h3 h4 h5 h6 h7 o by simp
qed

section \<open>The frame index of a tick\<close>

text \<open>
  Claim C2, amended. The frame rate is the prop when that is given and not zero, else
  the manifest's when that is given and not zero, else 25. The index of a tick is
  the floor of elapsed seconds times rate, computed on doubles: the difference of
  the clock reading and the start time, rounded, divided by 1000, rounded, times the
  rate, rounded (at 1160 ms and 25 frames per second that is 28, and it is infinite
  once the product has overflowed). A tick that finds no manifest does nothing. Below
  the number of frames the index is the one the tick shows; from there on, in a
  looping run, the tick shows the index modulo the number of frames, which is
  \<^verbatim>\<open>NaN\<close> when there are no frames or the index is infinite, and an audio track
  that has ended is set back to position zero and played again.
\<close>

theorem tick_index_and_wrap:
  "effective_fps p m =
     (case fpsProp p of
        Some f \<Rightarrow> if f \<noteq> 0 then f
                  else (case fps m of Some g \<Rightarrow> if g \<noteq> 0 then g else 25 | None \<Rightarrow> 25)
      | None \<Rightarrow> (case fps m of Some g \<Rightarrow> if g \<noteq> 0 then g else 25 | None \<Rightarrow> 25)) \<and>
   frame_index p m now s =
     d_floor (d_mul (d_div1000 (round_double (now - startTimeRef s))) (effective_fps p m)) \<and>
   (manifestRef s = None \<longrightarrow> tick p now s = (s, [])) \<and>
   (manifestRef s = Some m \<and> \<not> num_ge (frame_index p m now s) (int (length (framesRef s))) \<longrightarrow>
      currentFrameRef (fst (tick p now s)) = frame_index p m now s \<and>
      drawn (snd (tick p now s)) =
        (if strict_neq (frame_index p m now s) (currentFrameRef s)
         then [frame_index p m now s] else [])) \<and>
   (manifestRef s = Some m \<and> num_ge (frame_index p m now s) (int (length (framesRef s))) \<and> loop p \<longrightarrow>
      currentFrameRef (fst (tick p now s)) = js_rem (frame_index p m now s) (length (framesRef s)) \<and>
      drawn (snd (tick p now s)) =
        (if strict_neq (js_rem (frame_index p m now s) (length (framesRef s))) (currentFrameRef s)
         then [js_rem (frame_index p m now s) (length (framesRef s))] else []) \<and>
      (\<forall>a. frame_index p m now s = Num a \<and> framesRef s \<noteq> [] \<longrightarrow>
         js_rem (frame_index p m now s) (length (framesRef s)) =
           Num (a mod int (length (framesRef s)))) \<and>
      (framesRef s = [] \<or> frame_index p m now s = PosInf \<longrightarrow>
         js_rem (frame_index p m now s) (length (framesRef s)) = NaN) \<and>
      (\<forall>a. audioRef s = Some a \<and> ended a \<longrightarrow>
         audioRef (fst (tick p now s)) =
           Some (a\<lparr>paused := False, ended := False, currentTime := 0\<rparr>) \<and>
         take 2 (snd (tick p now s)) = [AudioSeek 0, AudioPlay]) \<and>
      (\<forall>a. audioRef s = Some a \<and> \<not> ended a \<longrightarrow>
         audioRef (fst (tick p now s)) = Some a \<and> AudioPlay \<notin> set (snd (tick p now s))))"
proof -
  let ?i = "frame_index p m now s"
  let ?n = "length (framesRef s)"
  have 1: "effective_fps p m =
     (case fpsProp p of
        Some f \<Rightarrow> if f \<noteq> 0 then f
                  else (case fps m of Some g \<Rightarrow> if g \<noteq> 0 then g else 25 | None \<Rightarrow> 25)
      | None \<Rightarrow> (case fps m of Some g \<Rightarrow> if g \<noteq> 0 then g else 25 | None \<Rightarrow> 25))"
    by (simp add: effective_fps_def or_num_eq split: option.splits)
  have 2: "?i = d_floor (d_mul (d_div1000 (round_double (now - startTimeRef s))) (effective_fps p m))"
    by (simp add: frame_index_def d_sub_def)
  have 3: "manifestRef s = None \<longrightarrow> tick p now s = (s, [])"
    by (simp add: tick_def)
  have 4: "currentFrameRef (fst (tick p now s)) = ?i \<and>
      drawn (snd (tick p now s)) = (if strict_neq ?i (currentFrameRef s) then [?i] else [])"
    if m: "manifestRef s = Some m" and lt: "\<not> num_ge ?i (int ?n)"
  proof -
    have t: "loop p \<or> \<not> num_ge ?i (int ?n)" using lt by simp
    have tg: "target p m now s = ?i" using lt by (simp add: target_def)
    show ?thesis
      using tick_continue_drawn[OF m t] unfolding tick_continue_eq[OF m t] tg by simp
  qed
  have 5: "currentFrameRef (fst (tick p now s)) = js_rem ?i ?n \<and>
      drawn (snd (tick p now s)) =
        (if strict_neq (js_rem ?i ?n) (currentFrameRef s) then [js_rem ?i ?n] else []) \<and>
      (\<forall>a. ?i = Num a \<and> framesRef s \<noteq> [] \<longrightarrow> js_rem ?i ?n = Num (a mod int ?n)) \<and>
      (framesRef s = [] \<or> ?i = PosInf \<longrightarrow> js_rem ?i ?n = NaN) \<and>
      (\<forall>a. audioRef s = Some a \<and> ended a \<longrightarrow>
         audioRef (fst (tick p now s)) =
           Some (a\<lparr>paused := False, ended := False, currentTime := 0\<rparr>) \<and>
         take 2 (snd (tick p now s)) = [AudioSeek 0, AudioPlay]) \<and>
      (\<forall>a. audioRef s = Some a \<and> \<not> ended a \<longrightarrow>
         audioRef (fst (tick p now s)) = Some a \<and> AudioPlay \<notin> set (snd (tick p now s)))"
    if m: "manifestRef s = Some m" and ge: "num_ge ?i (int ?n)" and lp: "loop p"
  proof -
    have t: "loop p \<or> \<not> num_ge ?i (int ?n)" using lp by simp
    have tg: "target p m now s = js_rem ?i ?n" using ge by (simp add: target_def)
    have a: "currentFrameRef (fst (tick p now s)) = js_rem ?i ?n"
      unfolding tick_continue_eq[OF m t] tg by simp
    have b: "drawn (snd (tick p now s)) =
        (if strict_neq (js_rem ?i ?n) (currentFrameRef s) then [js_rem ?i ?n] else [])"
      using tick_continue_drawn[OF m t] unfolding tg .
    have c: "\<forall>a. ?i = Num a \<and> framesRef s \<noteq> [] \<longrightarrow> js_rem ?i ?n = Num (a mod int ?n)"
    proof (intro allI impI)
      fix a assume h: "?i = Num a \<and> framesRef s \<noteq> []"
      then have "0 \<le> a" "0 < ?n" using ge by simp_all
      then show "js_rem ?i ?n = Num (a mod int ?n)" using h js_rem_nonneg by simp
    qed
    have d: "framesRef s = [] \<or> ?i = PosInf \<longrightarrow> js_rem ?i ?n = NaN"
      by (auto simp: js_rem_NaN)
    have e: "\<forall>a. audioRef s = Some a \<and> ended a \<longrightarrow>
         audioRef (fst (tick p now s)) =
           Some (a\<lparr>paused := False, ended := False, currentTime := 0\<rparr>) \<and>
         take 2 (snd (tick p now s)) = [AudioSeek 0, AudioPlay]"
      unfolding tick_continue_eq[OF m t] using ge by (simp add: restart_audio_eq)
    have f: "\<forall>a. audioRef s = Some a \<and> \<not> ended a \<longrightarrow>
         audioRef (fst (tick p now s)) = Some a \<and> AudioPlay \<notin> set (snd (tick p now s))"
      unfolding tick_continue_eq[OF m t] using ge
      by (simp add: restart_audio_eq AudioPlay_drawFrame)
    show ?thesis using a b c d e f by blast
  qed
  show ?thesis using 1 2 3 4 5 by blast
qed

theorem tick_index_and_wrap_witness:
  "manifestRef ready2 = Some M0 \<and> loop looping0 \<and>
   effective_fps looping0 M0 = 10 \<and>
   frame_index looping0 M0 350 ready2 = Num 3 \<and>
   num_ge (frame_index looping0 M0 350 ready2) (int (length (framesRef ready2))) \<and>
   currentFrameRef (fst (tick looping0 350 ready2)) = Num 0 \<and>
   drawn (snd (tick looping0 350 ready2)) = [Num 0] \<and>
   take 2 (snd (tick looping0 350 ready2)) = [AudioSeek 0, AudioPlay] \<and>
   frame_index (P0\<lparr>fpsProp := Some 25\<rparr>) M0 1160 ready0 = Num 28 \<and>
   manifestRef ready0 = Some M0 \<and> loop P_fast \<and>
   frame_index P_fast M0 2000 ready0 = PosInf \<and>
   currentFrameRef (fst (tick P_fast 2000 ready0)) = NaN"
proof -
  have h1: "manifestRef ready2 = Some M0" by (simp add: ready2_def ready0_def)
  have h2: "loop looping0" by (simp add: looping0_def P0_def)
  note T = tick_index_and_wrap[of looping0 M0 350 ready2]
  have f: "effective_fps looping0 M0 = 10"
    using T by (simp add: looping0_def P0_def M0_def)
  have i: "frame_index looping0 M0 350 ready2 = Num 3" by code_simp
  have l: "length (framesRef ready2) = 3" "currentFrameRef ready2 = Num 2"
    "audioRef ready2 = Some \<lparr>src = ''/a.ogg'', paused = True, ended = True, currentTime = 3 / 10\<rparr>"
    by (simp_all add: ready2_def ready0_def)
  have g: "num_ge (frame_index looping0 M0 350 ready2) (int (length (framesRef ready2)))"
    by (simp add: i l)
  have r: "js_rem (frame_index looping0 M0 350 ready2) (length (framesRef ready2)) = Num 0"
    by (simp add: i l)
  note W = T[THEN conjunct2, THEN conjunct2, THEN conjunct2, THEN conjunct2, rule_format,
             OF conjI[OF h1 conjI[OF g h2]], unfolded r]
  have d: "currentFrameRef (fst (tick looping0 350 ready2)) = Num 0"
    "drawn (snd (tick looping0 350 ready2)) = [Num 0]"
    "take 2 (snd (tick looping0 350 ready2)) = [AudioSeek 0, AudioPlay]"
    using W l by (simp_all add: strict_neq_Num)
  have v: "frame_index (P0\<lparr>fpsProp := Some 25\<rparr>) M0 1160 ready0 = Num 28" by code_simp
  have o1: "manifestRef ready0 = Some M0" by (simp add: ready0_def)
  have o2: "loop P_fast" by (simp add: P_fast_def looping0_def P0_def)
  have o3: "frame_index P_fast M0 2000 ready0 = PosInf" by (rule frame_index_overflow)
  have o4: "num_ge (frame_index P_fast M0 2000 ready0) (int (length (framesRef ready0)))"
    by (simp add: o3)
  note O = tick_index_and_wrap[of P_fast M0 2000 ready0, THEN conjunct2, THEN conjunct2,
             THEN conjunct2, THEN conjunct2, rule_format, OF conjI[OF o1 conjI[OF o4 o2]]]
  have o5: "currentFrameRef (fst (tick P_fast 2000 ready0)) = NaN"
    using O o3 by simp
  show ?thesis using h1 h2 f i g d v o1 o2 o3 o5 by blast
qed

theorem tick_index_and_wrap_counterexample:
  "fpsProp P_zero = Some 0 \<and> fps M0 = Some 10 \<and> manifestRef ready0 = Some M0 \<and>
   effective_fps P_zero M0 = 10 \<and>
   frame_index P_zero M0 150 ready0 = Num 1 \<and>
   drawn (snd (tick P_zero 150 ready0)) = [Num 1] \<and>
   loop looping0 \<and> framesRef ready_empty = [] \<and>
   frame_index looping0 M_empty 350 ready_empty = Num 3 \<and>
   drawn (snd (tick looping0 350 ready_empty)) = [NaN]"
  by code_simp

section \<open>Draws happen when the index changes\<close>





section \<open>Playback without loop\<close>




section \<open>Loads and sessions: lemmas\<close>

lemma list_all_nth: "list_all P xs \<longleftrightarrow> (\<forall>i<length xs. P (xs ! i))"
  by (simp add: list_all_length)

lemma load_zip_Fulfilled:
  assumes "load_zip w base z names = Fulfilled fs"
  shows "length fs = length names \<and> list_all (\<lambda>x. x \<noteq> None) fs"
proof -
  from assms obtain zipUrl body entries where
    u: "new_URL w z base = Inr zipUrl" and h: "http w zipUrl = Some body" and e: "unzip w body = Some entries"
    by (auto simp: load_zip_def split: sum.splits option.splits)
  have "find (\<lambda>n. entry_image w entries n = None) names = None"
    using assms unfolding load_zip_char[OF u h e] by (auto split: option.splits)
  then have a: "\<forall>n\<in>set names. entry_image w entries n \<noteq> None" by (simp add: find_None_iff)
  have "fs = map (entry_image w entries) names"
    using assms unfolding load_zip_char[OF u h e] by (auto split: option.splits)
  then show ?thesis using a by (simp add: list_all_iff)
qed

lemma loadFrames_Fulfilled_complete:
  assumes "loadFrames w p m cs = Fulfilled fs"
  shows "store_complete m fs"
proof -
  from assms obtain base where b: "base_url w p m = Inr base"
    by (auto simp: loadFrames_def split: sum.splits)
  show ?thesis
  proof (cases "zip_name (zip_entry m)")
    case (Some z)
    then have "load_zip w base z (frames m) = Fulfilled fs"
      using assms by (simp add: loadFrames_def b)
    then show ?thesis using load_zip_Fulfilled by (simp add: store_complete_def)
  next
    case None
    then have L: "load_individual w base (frames m) cs = Fulfilled fs"
      using assms by (simp add: loadFrames_def b)
    then obtain queue where q: "map_href w base (frames m) = Inr queue"
      and F: "promise_all (run_pool w queue cs (pool_init queue)) = Fulfilled fs"
      by (auto simp: load_individual_def split: sum.splits)
    have lq: "length queue = length (frames m)" using map_href_Inr[OF q] by simp
    have "length fs = length (frames m)" using pool_Fulfilled(1)[OF F] lq by simp
    moreover have "list_all (\<lambda>x. x \<noteq> None) fs"
      unfolding list_all_nth using pool_Fulfilled[OF F] by fastforce
    ultimately show ?thesis by (simp add: store_complete_def)
  qed
qed

lemma tick_keeps:
  "framesRef (fst (tick p now s)) = framesRef s \<and>
   manifestRef (fst (tick p now s)) = manifestRef s \<and>
   phase (fst (tick p now s)) = phase s"
  by (simp add: tick_def Let_def case_prod_beta draw_and_schedule_eq restart_audio_eq cancel_raf_fst
      split: option.splits)

lemma run_callback_keeps:
  "framesRef (fst (run_callback p now h s)) = framesRef s \<and>
   manifestRef (fst (run_callback p now h s)) = manifestRef s \<and>
   phase (fst (run_callback p now h s)) = phase s"
  by (simp add: run_callback_def tick_keeps)

lemma run_callbacks_keeps:
  "framesRef (fst (run_callbacks p now hs s)) = framesRef s \<and>
   manifestRef (fst (run_callbacks p now hs s)) = manifestRef s \<and>
   phase (fst (run_callbacks p now hs s)) = phase s"
proof (induction hs arbitrary: s)
  case Nil
  then show ?case by simp
next
  case (Cons h hs)
  show ?case
    using Cons.IH[of "fst (run_callback p now h s)"] run_callback_keeps[of p now h s]
    by (simp add: case_prod_beta)
qed

lemma animation_frame_idle: "callbacks s = [] \<Longrightarrow> animation_frame p now s = (s, [])"
  by (simp add: animation_frame_def)

lemma session_step_inv:
  assumes "session_inv s"
  shows "session_inv (fst (session_step w p e s)) \<and>
         ((\<exists>h. RequestAnimationFrame h \<in> set (snd (session_step w p e s))) \<longrightarrow>
            phase (fst (session_step w p e s)) = SetupDone) \<and>
         (phase s = SetupDone \<longrightarrow> phase (fst (session_step w p e s)) = SetupDone)"
proof (cases e)
  case (ManifestSettled r)
  show ?thesis
    using assms unfolding ManifestSettled
    by (cases "phase s"; cases r) (auto simp: session_inv_def setup_manifest_def caught_def)
next
  case (FramesSettled cs)
  show ?thesis
  proof (cases "phase s")
    case (AwaitFrames m)
    then have mr: "manifestRef s = Some m" and cb: "callbacks s = []"
      using assms by (simp_all add: session_inv_def)
    show ?thesis
    proof (cases "loadFrames w p m cs")
      case Pending
      then show ?thesis using assms AwaitFrames unfolding FramesSettled
        by (simp add: setup_frames_def)
    next
      case (Rejected err)
      then show ?thesis using AwaitFrames cb unfolding FramesSettled
        by (simp add: setup_frames_def caught_def session_inv_def)
    next
      case (Fulfilled fs)
      have sc: "store_complete m fs" using loadFrames_Fulfilled_complete[OF Fulfilled] .
      show ?thesis using AwaitFrames cb mr sc Fulfilled unfolding FramesSettled
        by (auto simp: setup_frames_def caught_def session_inv_def Let_def split: sum.splits)
    qed
  qed (use assms in \<open>simp_all add: FramesSettled setup_frames_def\<close>)
next
  case CanPlayThrough
  show ?thesis
    using assms unfolding CanPlayThrough
    by (cases "phase s") (auto simp: session_inv_def setup_canplay_def)
next
  case (PlaySettled ok now)
  show ?thesis
    using assms unfolding PlaySettled
    by (cases "phase s")
       (auto simp: session_inv_def setup_play_def caught_def requestAnimationFrame_def
          audio_playing_def Let_def drawFrame_def split: option.splits)
next
  case (AnimationFrame now)
  show ?thesis
  proof (cases "phase s = SetupDone")
    case True
    then show ?thesis
      using assms run_callbacks_keeps[of p now "callbacks s" s] unfolding AnimationFrame
      by (simp add: session_inv_def animation_frame_def)
  next
    case False
    then have "callbacks s = []" using assms by (simp add: session_inv_def)
    then show ?thesis using assms False unfolding AnimationFrame
      by (simp add: animation_frame_idle)
  qed
qed

lemma session_inv_run:
  assumes "session_inv s"
  shows "session_inv (fst (session w p es s)) \<and>
         ((\<exists>h. RequestAnimationFrame h \<in> set (snd (session w p es s))) \<longrightarrow>
            phase (fst (session w p es s)) = SetupDone) \<and>
         (phase s = SetupDone \<longrightarrow> phase (fst (session w p es s)) = SetupDone)"
  using assms
proof (induction es arbitrary: s)
  case Nil
  then show ?case by simp
next
  case (Cons e es)
  note S = session_step_inv[OF Cons.prems, of w p e]
  note I = Cons.IH[OF S[THEN conjunct1]]
  show ?case using S I by (auto simp: case_prod_beta)
qed

lemma session_inv_mount: "session_inv mount"
  by (simp add: session_inv_def mount_def)

lemma session_starts_complete:
  assumes "callbacks (fst (session w p es mount)) \<noteq> [] \<or>
           (\<exists>h. RequestAnimationFrame h \<in> set (snd (session w p es mount)))"
  shows "\<exists>m. manifestRef (fst (session w p es mount)) = Some m \<and>
             store_complete m (framesRef (fst (session w p es mount)))"
proof -
  note R = session_inv_run[OF session_inv_mount, of w p es]
  have "phase (fst (session w p es mount)) = SetupDone"
    using assms R by (auto simp: session_inv_def)
  then show ?thesis using R by (simp add: session_inv_def)
qed







section \<open>Teardown\<close>




section \<open>A failed load\<close>

text \<open>
  What holds of a load in which the fetch or decode of some frame fails: the promise
  of \<^verbatim>\<open>loadFrames\<close> is never fulfilled, whatever the order in which the fetches
  settle; it is rejected by the step in which a failing fetch settles, at the latest
  when all have settled, and stays rejected with the same error; the fetches issued
  are an initial segment of the queue; and setup then leaves the frame store, the
  audio element and the callback list as they were and draws nothing. A fulfilled
  load holds one decoded image per frame name, and in a session made of the
  resumptions of setup and of animation frames only, whenever a tick has been
  scheduled the frame store holds exactly one decoded image per frame name.
\<close>

lemma rejection_persists:
  "rejection s = Some e \<Longrightarrow> rejection (run_pool w queue cs s) = Some e"
proof (induction cs arbitrary: s)
  case Nil
  then show ?case by simp
next
  case (Cons c cs)
  show ?case
  proof (cases "awaiting s")
    case Nil
    then show ?thesis using Cons.prems by simp
  next
    case (Cons k ks)
    let ?k = "(k # ks) ! (c mod length (k # ks))"
    have "rejection (resume w queue ?k s) = Some e"
      using Cons.prems
      by (auto simp: resume_def claim_def case_prod_beta split: wstate.splits sum.splits)
    then show ?thesis using Cons.IH Cons by simp
  qed
qed

text \<open>The promise is rejected by the very step in which a failing fetch settles.\<close>

lemma pool_fail_fast:
  assumes aw: "awaiting s = k # ks"
    and a: "workers s ! ((k # ks) ! (c mod length (k # ks))) = Awaiting i"
    and f: "fetchBitmap w (queue ! i) = Inl e"
  shows "\<exists>e'. promise_all (run_pool w queue [c] s) = Rejected e'"
proof -
  let ?k = "(k # ks) ! (c mod length (k # ks))"
  have "?k \<in> set (awaiting s)" unfolding aw by (rule pick_mem) simp
  then have k: "?k < length (workers s)" using awaiting_mem by blast
  have "rejection (resume w queue ?k s) \<noteq> None"
    unfolding resume_fail[OF k a f] by (simp split: option.splits)
  then show ?thesis using aw by (auto simp: promise_all_def)
qed

lemma failed_load_aborts_setup:
  assumes b: "base_url w p m = Inr base" and z: "zip_name (zip_entry m) = None"
    and q: "map_href w base (frames m) = Inr queue"
    and bad: "\<exists>u\<in>set queue. \<exists>e. fetchBitmap w u = Inl e"
    and ph: "phase s = AwaitFrames m"
  shows "(\<forall>fs. loadFrames w p m cs \<noteq> Fulfilled fs) \<and>
         (length (frames m) \<le> length cs \<longrightarrow>
            (\<exists>e. loadFrames w p m cs = Rejected e \<and> setup_frames w p cs s = caught p e s)) \<and>
         (\<forall>e cs'. loadFrames w p m cs = Rejected e \<longrightarrow> loadFrames w p m (cs @ cs') = Rejected e) \<and>
         fetches (run_pool w queue cs (pool_init queue)) =
           take (length (fetches (run_pool w queue cs (pool_init queue)))) queue \<and>
         framesRef (fst (setup_frames w p cs s)) = framesRef s \<and>
         callbacks (fst (setup_frames w p cs s)) = callbacks s \<and>
         audioRef (fst (setup_frames w p cs s)) = audioRef s \<and>
         drawn (snd (setup_frames w p cs s)) = [] \<and>
         (\<forall>w' p' m' cs' fs. loadFrames w' p' m' cs' = Fulfilled fs \<longrightarrow> store_complete m' fs) \<and>
         (\<forall>w' p' es.
            callbacks (fst (session w' p' es mount)) \<noteq> [] \<or>
            (\<exists>h. RequestAnimationFrame h \<in> set (snd (session w' p' es mount))) \<longrightarrow>
            (\<exists>m'. manifestRef (fst (session w' p' es mount)) = Some m' \<and>
                   store_complete m' (framesRef (fst (session w' p' es mount)))))"
proof -
  have L: "loadFrames w p m cs = promise_all (run_pool w queue cs (pool_init queue))" for cs
    by (simp add: loadFrames_def b z load_individual_def q)
  have 1: "\<forall>fs. loadFrames w p m cs \<noteq> Fulfilled fs"
    unfolding L using pool_never_Fulfilled[OF bad] by blast
  have lq: "length queue = length (frames m)" using map_href_Inr[OF q] by simp
  have 2: "\<exists>e. loadFrames w p m cs = Rejected e \<and> setup_frames w p cs s = caught p e s"
    if "length (frames m) \<le> length cs"
  proof -
    have "loadFrames w p m cs \<noteq> Pending"
      unfolding L using pool_settles[of queue cs w] that lq by simp
    then obtain e where e: "loadFrames w p m cs = Rejected e"
      using 1 by (cases "loadFrames w p m cs") auto
    then show ?thesis by (simp add: setup_frames_def ph)
  qed
  have 3: "loadFrames w p m (cs @ cs') = Rejected e" if r: "loadFrames w p m cs = Rejected e" for e cs'
  proof -
    have rp: "run_pool w queue (xs @ ys) t = run_pool w queue ys (run_pool w queue xs t)" for xs ys t
    proof (induction xs arbitrary: t)
      case Nil
      then show ?case by simp
    next
      case (Cons x xs)
      show ?case
      proof (cases "awaiting t")
        case Nil
        then have "run_pool w queue ys t = t" by (cases ys) simp_all
        then show ?thesis using Nil by simp
      next
        case (Cons k ks)
        then show ?thesis using Cons.IH by simp
      qed
    qed
    have "rejection (run_pool w queue cs (pool_init queue)) = Some e"
      using r unfolding L by (auto simp: promise_all_def split: option.splits if_splits)
    then have "rejection (run_pool w queue (cs @ cs') (pool_init queue)) = Some e"
      unfolding rp by (rule rejection_persists)
    then show ?thesis unfolding L by (simp add: promise_all_def)
  qed
  have 4: "fetches (run_pool w queue cs (pool_init queue)) =
           take (length (fetches (run_pool w queue cs (pool_init queue)))) queue"
    by (rule pool_fetches_prefix)
  have 5: "framesRef (fst (setup_frames w p cs s)) = framesRef s \<and>
         callbacks (fst (setup_frames w p cs s)) = callbacks s \<and>
         audioRef (fst (setup_frames w p cs s)) = audioRef s \<and>
         drawn (snd (setup_frames w p cs s)) = []"
    using 1 by (cases "loadFrames w p m cs") (simp_all add: setup_frames_def ph caught_def)
  have 6: "\<forall>w' p' m' cs' fs. loadFrames w' p' m' cs' = Fulfilled fs \<longrightarrow> store_complete m' fs"
    using loadFrames_Fulfilled_complete by blast
  have 7: "\<forall>w' p' es.
            callbacks (fst (session w' p' es mount)) \<noteq> [] \<or>
            (\<exists>h. RequestAnimationFrame h \<in> set (snd (session w' p' es mount))) \<longrightarrow>
            (\<exists>m'. manifestRef (fst (session w' p' es mount)) = Some m' \<and>
                   store_complete m' (framesRef (fst (session w' p' es mount))))"
    using session_starts_complete by blast
  show ?thesis
    apply (intro conjI)
    using 1 apply blast
    using 2 apply blast
    using 3 apply blast
    using 4 apply blast
    using 5 apply blast
    using 5 apply blast
    using 5 apply blast
    using 5 apply blast
    using 6 apply blast
    using 7 apply blast
    done
qed

text \<open>
  Claim C6 does not hold of the code. The handler of the start button starts the
  clock without looking at the frame store or at the outcome of setup: after a load
  that was rejected because \<^verbatim>\<open>bad.jpg\<close> could not be fetched, setup has reported the
  error and the frame store is empty, none of the three frames of the manifest, and a
  click schedules \<^verbatim>\<open>tick\<close>, which calls \<^verbatim>\<open>drawFrame(-1)\<close> and \<^verbatim>\<open>onEnd\<close>.
\<close>

theorem start_after_failed_load:
  "loadFrames W0 P0 M_bad [2, 0, 1] = Rejected (NetworkError ''/bad.jpg'') \<and>
   snd (session W0 P0 [ManifestSettled (Some M_bad), FramesSettled [2, 0, 1]] mount) =
     [CallOnError (NetworkError ''/bad.jpg'')] \<and>
   phase (fst (session W0 P0 [ManifestSettled (Some M_bad), FramesSettled [2, 0, 1]] mount)) = SetupCaught \<and>
   framesRef (fst (session W0 P0 [ManifestSettled (Some M_bad), FramesSettled [2, 0, 1]] mount)) = [] \<and>
   length (frames M_bad) = 3 \<and>
   snd (handleStart True 0
          (fst (session W0 P0 [ManifestSettled (Some M_bad), FramesSettled [2, 0, 1]] mount))) =
     [RequestAnimationFrame 1] \<and>
   snd (play P0 [16]
          (fst (handleStart True 0
             (fst (session W0 P0 [ManifestSettled (Some M_bad), FramesSettled [2, 0, 1]] mount))))) =
     [DrawFrame (Num (- 1)), CancelAnimationFrame 1, CallOnEnd]"
  by code_simp

section \<open>Cleanup while setup is suspended\<close>

text \<open>
  Claim C5 does not hold of the code. \<^verbatim>\<open>framesRef.current = await loadFrames(manifest)\<close>
  stores the late result before \<^verbatim>\<open>isMounted\<close> is looked at: after a cleanup that ran
  while the fetches were in flight the frame store, emptied by the cleanup, holds the
  three images again. And nothing looks at \<^verbatim>\<open>isMounted\<close> after the two waits on the
  audio element: after a cleanup that ran while setup awaited \<^verbatim>\<open>canplaythrough\<close>,
  setup calls \<^verbatim>\<open>play()\<close>, schedules a tick and calls \<^verbatim>\<open>onReady\<close>, and the tick, on
  the emptied store, calls \<^verbatim>\<open>onEnd\<close>.
\<close>

theorem late_results_after_cleanup:
  "\<not> isMounted (fst (cleanup (fst (setup_manifest P0 (Some M0) mount)))) \<and>
   framesRef (fst (cleanup (fst (setup_manifest P0 (Some M0) mount)))) = [] \<and>
   framesRef (fst (setup_frames W0 P0 [2, 0, 1]
                (fst (cleanup (fst (setup_manifest P0 (Some M0) mount)))))) =
     [Some (ImageBitmap ''/a.jpg''), Some (ImageBitmap ''/b.jpg''), Some (ImageBitmap ''/c.jpg'')] \<and>
   \<not> isMounted (fst (cleanup (fst (session W0 P0
        [ManifestSettled (Some M0), FramesSettled [2, 0, 1]] mount)))) \<and>
   snd (session W0 P0 [CanPlayThrough, PlaySettled True 0, AnimationFrame 16]
          (fst (cleanup (fst (session W0 P0
             [ManifestSettled (Some M0), FramesSettled [2, 0, 1]] mount))))) =
     [AudioPlay, DrawFrame (Num 0), RequestAnimationFrame 1, CallOnReady,
      DrawFrame (Num (- 1)), CancelAnimationFrame 1, CallOnEnd]"
  by code_simp

end
